theory Spec2Isabelle
  imports Complex_Main "HOL-Library.AList" "HOL-Library.Sublist"
begin

section \<open>Python values, objects and strings\<close>

text \<open>
  The registry handles untyped key/value maps (\<^verbatim>\<open>Dict[str, Any]\<close>): execution contexts,
  tool results and history records. A dictionary's items are an association list in
  insertion order with distinct keys; \<open>map_of\<close> reads a key and \<open>AList.update\<close> writes one
  (an existing key keeps its place, a new key goes to the end, as in Python).

  Dictionaries are mutable objects and are shared by reference. The dictionaries that
  tools can reach (the execution contexts, the results tools return, and the
  dictionaries nested in them) live in a heap: a value refers to such a dictionary by
  its address (\<open>PRef\<close>), and a tool may change any dictionary of the heap. The heap
  also counts the addresses handed out so far, for the dictionaries the registry itself
  creates (\<^verbatim>\<open>context.copy()\<close>). Contexts and results are dictionaries, as the interface
  declares them (\<^verbatim>\<open>Dict[str, Any]\<close>).

  Durations and clock readings are Python floats; they are modelled as real numbers, so
  rounding is not part of the model. \<open>PTimestamp t\<close> stands for the string
  \<^verbatim>\<open>datetime.isoformat()\<close> of the instant \<open>t\<close>.
\<close>

datatype pyval =
    PNone
  | PBool bool
  | PInt int
  | PFloat real
  | PStr string
  | PTimestamp real
  | PRef nat

type_synonym dict = "(string \<times> pyval) list"

record world =
  objects :: "nat \<Rightarrow> dict"
  allocated :: nat

definition dict_of :: "world \<Rightarrow> nat \<Rightarrow> dict" where
  "dict_of w a = objects w a"

definition new_object :: "dict \<Rightarrow> world \<Rightarrow> nat \<times> world" where
  "new_object obj w =
     (allocated w, w\<lparr> objects := (objects w)(allocated w := obj), allocated := Suc (allocated w) \<rparr>)"

text \<open>\<^verbatim>\<open>d[k] = v\<close> on the dictionary at address \<open>a\<close>, and \<^verbatim>\<open>d.copy()\<close>: a new dictionary
  with the same items, so that nested dictionaries are shared between the two.\<close>

definition set_item :: "nat \<Rightarrow> string \<Rightarrow> pyval \<Rightarrow> world \<Rightarrow> world" where
  "set_item a k v w = w\<lparr> objects := (objects w)(a := AList.update k v (dict_of w a)) \<rparr>"

definition copy_dict :: "nat \<Rightarrow> world \<Rightarrow> nat \<times> world" where
  "copy_dict a w = new_object (dict_of w a) w"

fun truthy :: "world \<Rightarrow> pyval option \<Rightarrow> bool" where
  "truthy w None = False"
| "truthy w (Some PNone) = False"
| "truthy w (Some (PBool b)) = b"
| "truthy w (Some (PInt i)) = (i \<noteq> 0)"
| "truthy w (Some (PFloat r)) = (r \<noteq> 0)"
| "truthy w (Some (PStr s)) = (s \<noteq> [])"
| "truthy w (Some (PTimestamp t)) = True"
| "truthy w (Some (PRef a)) = (dict_of w a \<noteq> [])"

definition get_default :: "dict \<Rightarrow> string \<Rightarrow> pyval \<Rightarrow> pyval" where
  "get_default d k dflt = (case map_of d k of None \<Rightarrow> dflt | Some v \<Rightarrow> v)"

definition replace_newlines :: "string \<Rightarrow> string" where
  "replace_newlines s = map (\<lambda>c. if c = CHR 0x0A then CHR '' '' else c) s"

text \<open>\<^verbatim>\<open>xs[i:]\<close> for any integer \<open>i\<close>: a negative index counts from the end, and both
  ends are clipped to the list.\<close>

definition slice_from :: "int \<Rightarrow> 'a list \<Rightarrow> 'a list" where
  "slice_from i xs =
     (let n = int (length xs);
          start = (if i < 0 then max (n + i) 0 else min i n)
      in drop (nat start) xs)"

subsection \<open>Text that is matched\<close>

text \<open>
  Tool ids, dictionary keys and messages are only compared and concatenated, so their
  alphabet does not matter; they are strings of 8-bit characters. The texts that
  \<^verbatim>\<open>matches_query\<close> folds to lower case and splits (names, descriptions, capabilities,
  keywords, queries) are sequences of Unicode code points.

  \<^verbatim>\<open>str.lower()\<close> maps each code point to its full lower-case mapping, a sequence of code
  points taken from the Unicode character database, except the capital sigma U+03A3:
  it becomes the final sigma U+03C2 when a cased letter precedes it (case-ignorable code
  points aside) and none follows it, and the small sigma U+03C3 otherwise. The database
  is not part of the repository; its three tables are a parameter.
\<close>

type_synonym ustr = "nat list"

definition codepoints :: "string \<Rightarrow> ustr" where
  "codepoints s = map of_char s"

record ucd =
  to_lower_full :: "nat \<Rightarrow> nat list"
  is_cased :: "nat \<Rightarrow> bool"
  is_case_ignorable :: "nat \<Rightarrow> bool"

text \<open>\<open>before\<close> holds the code points to the left of the sigma, nearest first.\<close>

definition final_sigma :: "ucd \<Rightarrow> ustr \<Rightarrow> ustr \<Rightarrow> bool" where
  "final_sigma U before after =
     ((case dropWhile (is_case_ignorable U) before of [] \<Rightarrow> False | c # cs \<Rightarrow> is_cased U c)
      \<and> (case dropWhile (is_case_ignorable U) after of [] \<Rightarrow> True | c # cs \<Rightarrow> \<not> is_cased U c))"

definition lower_at :: "ucd \<Rightarrow> ustr \<Rightarrow> nat \<Rightarrow> ustr \<Rightarrow> ustr" where
  "lower_at U before c after =
     (if c = 0x3A3 then [if final_sigma U before after then 0x3C2 else 0x3C3]
      else to_lower_full U c)"

fun lower_from :: "ucd \<Rightarrow> ustr \<Rightarrow> ustr \<Rightarrow> ustr" where
  "lower_from U before [] = []"
| "lower_from U before (c # after) = lower_at U before c after @ lower_from U (c # before) after"

definition lower :: "ucd \<Rightarrow> ustr \<Rightarrow> ustr" where
  "lower U s = lower_from U [] s"

text \<open>The code points for which \<^verbatim>\<open>str.isspace()\<close> holds.\<close>

definition is_space :: "nat \<Rightarrow> bool" where
  "is_space c =
     ((9 \<le> c \<and> c \<le> 13) \<or> (28 \<le> c \<and> c \<le> 32) \<or> c = 133 \<or> c = 160 \<or> c = 5760
      \<or> (8192 \<le> c \<and> c \<le> 8202) \<or> c = 8232 \<or> c = 8233 \<or> c = 8239 \<or> c = 8287
      \<or> c = 12288)"

text \<open>\<^verbatim>\<open>str.split()\<close> without arguments: the maximal runs of non-whitespace code points.\<close>

fun split_acc :: "ustr \<Rightarrow> ustr \<Rightarrow> ustr list" where
  "split_acc w [] = (if w = [] then [] else [w])"
| "split_acc w (c # cs) =
     (if is_space c then (if w = [] then split_acc [] cs else w # split_acc [] cs)
      else split_acc (w @ [c]) cs)"

definition split :: "ustr \<Rightarrow> ustr list" where
  "split s = split_acc [] s"

section \<open>Tool instances\<close>

text \<open>
  A tool is external. Its \<^verbatim>\<open>initialize\<close> attribute may be absent; when present the call
  returns a boolean or raises. Its \<^verbatim>\<open>execute(context)\<close> is given the address of its
  context and returns the address of its result or raises; either way it leaves the heap
  in some state and ends some seconds later. What a call reads from the heap and what
  it does to the heap takes place at the moment the call ends; the statements of the
  registry itself take no time. An exception that is an instance of \<^verbatim>\<open>Exception\<close> is
  known by its message \<^verbatim>\<open>str(e)\<close>. The other exceptions (\<^verbatim>\<open>BaseException\<close> outside
  \<^verbatim>\<open>Exception\<close>; since Python 3.8 \<^verbatim>\<open>asyncio.CancelledError\<close> is one) pass through every
  \<^verbatim>\<open>except Exception\<close> of the registry.
\<close>

datatype base_exception = CancelledError | KeyboardInterrupt | SystemExit | OtherBaseException string

datatype init_outcome = InitReturns bool | InitRaises string | InitAborts base_exception

datatype exec_outcome =
    ExecReturns nat world real
  | ExecRaises string world real
  | ExecAborts base_exception world real

record tool =
  initialize :: "init_outcome option"
  execute :: "nat \<Rightarrow> world \<Rightarrow> exec_outcome"

section \<open>ToolEntryDTO\<close>

datatype ToolStatusENUM = UNINITIALIZED | READY | EXECUTING | ERROR | DISABLED

fun status_value :: "ToolStatusENUM \<Rightarrow> string" where
  "status_value UNINITIALIZED = ''uninitialized''"
| "status_value READY = ''ready''"
| "status_value EXECUTING = ''executing''"
| "status_value ERROR = ''error''"
| "status_value DISABLED = ''disabled''"

record ToolEntryDTO =
  tool_id :: string
  tool_instance :: tool
  name :: ustr
  description :: ustr
  category :: string
  handler_name :: string
  llm_config :: dict
  system_prompt :: string
  capabilities :: "ustr list"
  keyword_list :: "ustr list"
  status :: ToolStatusENUM
  initialized_at :: "real option"
  last_executed :: "real option"
  execution_count :: int
  total_execution_time :: real
  average_execution_time :: real
  execution_history :: "dict list"
  max_history_size :: int
  error_count :: int
  last_error :: "string option"
  last_error_time :: "real option"
  metadata :: dict

text \<open>The dataclass constructor with its defaults; \<^verbatim>\<open>__post_init__\<close> raises
  \<^verbatim>\<open>ValueError\<close> on an empty \<^verbatim>\<open>tool_id\<close>.\<close>

definition new_entry ::
  "string \<Rightarrow> tool \<Rightarrow> ustr \<Rightarrow> ustr \<Rightarrow> string \<Rightarrow> dict \<Rightarrow> string \<Rightarrow> ustr list \<Rightarrow> ustr list
     \<Rightarrow> ToolStatusENUM \<Rightarrow> dict \<Rightarrow> string + ToolEntryDTO" where
  "new_entry tid inst nm descr handler cfg prompt caps kws st meta =
     (if tid = [] then Inl ''tool_id is required''
      else Inr \<lparr> tool_id = tid, tool_instance = inst, name = nm, description = descr,
                 category = ''tool'', handler_name = handler, llm_config = cfg,
                 system_prompt = prompt, capabilities = caps, keyword_list = kws, status = st,
                 initialized_at = None, last_executed = None, execution_count = 0,
                 total_execution_time = 0, average_execution_time = 0,
                 execution_history = [], max_history_size = 50, error_count = 0,
                 last_error = None, last_error_time = None, metadata = meta \<rparr>)"

text \<open>
  \<^verbatim>\<open>update_execution_stats\<close> assigns three fields and then divides; a division by zero
  raises \<^verbatim>\<open>ZeroDivisionError\<close> after the three assignments took effect. The result is the
  entry as left behind and the message of the exception, if one was raised.
\<close>

definition update_execution_stats :: "real \<Rightarrow> real \<Rightarrow> ToolEntryDTO \<Rightarrow> string option \<times> ToolEntryDTO" where
  "update_execution_stats now execution_time e =
     (let e1 = e\<lparr> last_executed := Some now,
                  execution_count := execution_count e + 1,
                  total_execution_time := total_execution_time e + execution_time \<rparr>
      in if execution_count e1 = 0 then (Some ''float division by zero'', e1)
         else (None, e1\<lparr> average_execution_time :=
                            total_execution_time e1 / real_of_int (execution_count e1) \<rparr>))"

text \<open>The record as \<^verbatim>\<open>add_to_execution_history\<close> stores it: stamped with the current time
  unless it brings a timestamp.\<close>

definition stamped :: "real \<Rightarrow> dict \<Rightarrow> dict" where
  "stamped now entry =
     (if map_of entry ''timestamp'' = None
      then AList.update ''timestamp'' (PTimestamp now) entry else entry)"

definition add_to_execution_history :: "real \<Rightarrow> dict \<Rightarrow> ToolEntryDTO \<Rightarrow> ToolEntryDTO" where
  "add_to_execution_history now entry e =
     (let history = execution_history e @ [stamped now entry]
      in if int (length history) > max_history_size e
         then e\<lparr> execution_history := slice_from (- max_history_size e) history \<rparr>
         else e\<lparr> execution_history := history \<rparr>)"

text \<open>A sequence of calls of \<^verbatim>\<open>add_to_execution_history\<close> on one entry, each with the
  clock reading of its moment.\<close>

fun add_all :: "(real \<times> dict) list \<Rightarrow> ToolEntryDTO \<Rightarrow> ToolEntryDTO" where
  "add_all [] e = e"
| "add_all ((now, entry) # rest) e = add_all rest (add_to_execution_history now entry e)"

text \<open>The last \<open>n\<close> elements of a list, in their order.\<close>

definition last_n :: "nat \<Rightarrow> 'a list \<Rightarrow> 'a list" where
  "last_n n xs = drop (length xs - n) xs"

definition record_error :: "real \<Rightarrow> string \<Rightarrow> ToolEntryDTO \<Rightarrow> ToolEntryDTO" where
  "record_error now err e =
     add_to_execution_history now
       [(''error'', PStr err), (''success'', PBool False), (''timestamp'', PTimestamp now)]
       (e\<lparr> error_count := error_count e + 1, last_error := Some err,
           last_error_time := Some now, status := ERROR \<rparr>)"

definition is_ready :: "ToolEntryDTO \<Rightarrow> bool" where
  "is_ready e = (status e = READY)"

definition is_available :: "ToolEntryDTO \<Rightarrow> bool" where
  "is_available e = (status e = READY \<or> status e = UNINITIALIZED)"

text \<open>The two \<^verbatim>\<open>for\<close> loops of \<^verbatim>\<open>matches_query\<close>: \<open>w\<close> is added for every element whose
  lower-case form occurs in the lower-case query.\<close>

fun accumulate :: "ucd \<Rightarrow> real \<Rightarrow> real \<Rightarrow> ustr list \<Rightarrow> ustr \<Rightarrow> real" where
  "accumulate U w score [] query_lower = score"
| "accumulate U w score (k # ks) query_lower =
     accumulate U w (if sublist (lower U k) query_lower then score + w else score) ks query_lower"

definition raw_score :: "ucd \<Rightarrow> ToolEntryDTO \<Rightarrow> ustr \<Rightarrow> real" where
  "raw_score U e query =
     (let query_lower = lower U query;
          score0 = accumulate U 0.4 0 (keyword_list e) query_lower;
          score1 = accumulate U 0.3 score0 (capabilities e) query_lower;
          score2 = (if sublist (lower U (name e)) query_lower then score1 + 0.2 else score1)
      in if list_ex (\<lambda>word. sublist word query_lower) (split (lower U (description e)))
         then score2 + 0.1 else score2)"

definition matches_query :: "ucd \<Rightarrow> ToolEntryDTO \<Rightarrow> ustr \<Rightarrow> real" where
  "matches_query U e query = min (raw_score U e query) 1.0"

section \<open>ToolMapManager\<close>

text \<open>
  The tool map is a Python dictionary: an association list with distinct keys in
  insertion order. \<^verbatim>\<open>_initialization_tasks\<close> maps a tool id to the handle of its
  background initialization, an asyncio task, known here by its number.

  The last two fields are not attributes of the class. They are the part of the event
  loop that the registry creates: the tasks spawned by \<^verbatim>\<open>add_tool\<close> that have neither
  ended nor been cancelled, each with the tool id it initializes, and the number of tasks
  spawned so far. A task may outlive its handle (\<^verbatim>\<open>_initialize_tool\<close> drops the handle of
  its tool id whenever it ends, also when \<^verbatim>\<open>execute_tool\<close> runs it directly).
\<close>

record ToolMapManager =
  session_id :: string
  max_tools :: int
  tool_map :: "(string \<times> ToolEntryDTO) list"
  initialization_tasks :: "(string \<times> nat) list"
  total_added :: int
  total_removed :: int
  total_executions :: int
  created_at :: real
  live_tasks :: "(nat \<times> string) list"
  spawned_tasks :: nat

definition new_manager :: "string \<Rightarrow> int \<Rightarrow> real \<Rightarrow> ToolMapManager" where
  "new_manager sid cap now =
     \<lparr> session_id = sid, max_tools = cap, tool_map = [], initialization_tasks = [],
       total_added = 0, total_removed = 0, total_executions = 0, created_at = now,
       live_tasks = [], spawned_tasks = 0 \<rparr>"

definition count :: "ToolMapManager \<Rightarrow> int" where
  "count s = int (length (tool_map s))"

definition get_tool :: "ToolMapManager \<Rightarrow> string \<Rightarrow> ToolEntryDTO option" where
  "get_tool s tid = map_of (tool_map s) tid"

definition put_entry :: "string \<Rightarrow> ToolEntryDTO \<Rightarrow> ToolMapManager \<Rightarrow> ToolMapManager" where
  "put_entry tid entry s = s\<lparr> tool_map := AList.update tid entry (tool_map s) \<rparr>"

text \<open>\<^verbatim>\<open>task.cancel()\<close>: the task will not run any further.\<close>

definition cancel_task :: "nat \<Rightarrow> ToolMapManager \<Rightarrow> ToolMapManager" where
  "cancel_task n s = s\<lparr> live_tasks := AList.delete n (live_tasks s) \<rparr>"

text \<open>The optional arguments of \<^verbatim>\<open>add_tool\<close>; \<open>None\<close> is Python's \<^verbatim>\<open>None\<close> default.\<close>

record add_tool_args =
  arg_name :: ustr
  arg_description :: ustr
  arg_handler_name :: string
  arg_llm_config :: "dict option"
  arg_system_prompt :: string
  arg_capabilities :: "ustr list option"
  arg_keywords :: "ustr list option"
  arg_metadata :: "dict option"

definition or_else :: "'a list option \<Rightarrow> 'a list" where
  "or_else x = (case x of None \<Rightarrow> [] | Some v \<Rightarrow> v)"

text \<open>
  \<^verbatim>\<open>add_tool\<close>: the two rejections, then the entry's construction (which raises on an
  empty id), the insertion, and either the spawning of the background initialization
  (the handle is stored) or the immediate transition to READY.
\<close>

definition add_tool ::
  "real \<Rightarrow> string \<Rightarrow> tool \<Rightarrow> add_tool_args \<Rightarrow> ToolMapManager \<Rightarrow> (string + bool) \<times> ToolMapManager" where
  "add_tool now tid inst args s =
     (if int (length (tool_map s)) \<ge> max_tools s then (Inr False, s)
      else if map_of (tool_map s) tid \<noteq> None then (Inr False, s)
      else
        (case new_entry tid inst (if arg_name args = [] then codepoints tid else arg_name args)
                (arg_description args) (arg_handler_name args) (or_else (arg_llm_config args))
                (arg_system_prompt args) (or_else (arg_capabilities args))
                (or_else (arg_keywords args)) UNINITIALIZED (or_else (arg_metadata args)) of
           Inl err \<Rightarrow> (Inl err, s)
         | Inr entry \<Rightarrow>
             (let s1 = s\<lparr> tool_map := AList.update tid entry (tool_map s),
                          total_added := total_added s + 1 \<rparr>
              in case initialize inst of
                   Some init \<Rightarrow>
                     (Inr True,
                      s1\<lparr> initialization_tasks :=
                            AList.update tid (spawned_tasks s1) (initialization_tasks s1),
                          live_tasks := live_tasks s1 @ [(spawned_tasks s1, tid)],
                          spawned_tasks := Suc (spawned_tasks s1) \<rparr>)
                 | None \<Rightarrow>
                     (Inr True,
                      s1\<lparr> tool_map :=
                            AList.update tid (entry\<lparr> status := READY, initialized_at := Some now \<rparr>)
                              (tool_map s1) \<rparr>))))"

definition remove_tool :: "string \<Rightarrow> ToolMapManager \<Rightarrow> bool \<times> ToolMapManager" where
  "remove_tool tid s =
     (if map_of (tool_map s) tid = None then (False, s)
      else
        (let s1 = (case map_of (initialization_tasks s) tid of
                     None \<Rightarrow> s
                   | Some n \<Rightarrow>
                       (cancel_task n s)\<lparr> initialization_tasks :=
                                             AList.delete tid (initialization_tasks s) \<rparr>)
         in (True, s1\<lparr> tool_map := AList.delete tid (tool_map s1),
                       total_removed := total_removed s1 + 1 \<rparr>)))"

text \<open>\<^verbatim>\<open>cleanup\<close>: every task that has a handle is cancelled; then every key of the map,
  as listed before the loop, is removed.\<close>

definition cleanup :: "ToolMapManager \<Rightarrow> ToolMapManager" where
  "cleanup s =
     fold (\<lambda>tid s1. snd (remove_tool tid s1)) (map fst (tool_map s))
       (fold cancel_task (map snd (initialization_tasks s)) s)"

subsection \<open>Initialization\<close>

text \<open>
  The body of \<^verbatim>\<open>_initialize_tool\<close> on the entry object: the tool's initializer decides
  between READY and ERROR; an exception that \<^verbatim>\<open>except Exception\<close> catches sets ERROR and
  is recorded; any other exception leaves the entry as it is and goes on to the caller.
\<close>

definition initialize_entry :: "real \<Rightarrow> ToolEntryDTO \<Rightarrow> base_exception option \<times> ToolEntryDTO" where
  "initialize_entry now entry =
     (case initialize (tool_instance entry) of
        Some (InitReturns ok) \<Rightarrow>
          (None, if ok then entry\<lparr> status := READY, initialized_at := Some now \<rparr>
                 else entry\<lparr> status := ERROR \<rparr>)
      | Some (InitRaises msg) \<Rightarrow> (None, record_error now msg (entry\<lparr> status := ERROR \<rparr>))
      | Some (InitAborts exc) \<Rightarrow> (Some exc, entry)
      | None \<Rightarrow> (None, entry\<lparr> status := READY, initialized_at := Some now \<rparr>))"

text \<open>\<^verbatim>\<open>_initialize_tool\<close>: a missing id is a \<^verbatim>\<open>KeyError\<close> that the handler swallows; the
  \<^verbatim>\<open>finally\<close> block drops the handle in every case.\<close>

definition initialize_tool ::
  "real \<Rightarrow> string \<Rightarrow> ToolMapManager \<Rightarrow> base_exception option \<times> ToolMapManager" where
  "initialize_tool now tid s =
     (case (case map_of (tool_map s) tid of
              None \<Rightarrow> (None, s)
            | Some entry \<Rightarrow>
                (case initialize_entry now entry of (exc, entry1) \<Rightarrow> (exc, put_entry tid entry1 s))) of
        (exc, s1) \<Rightarrow>
          (exc, s1\<lparr> initialization_tasks := AList.delete tid (initialization_tasks s1) \<rparr>))"

text \<open>The background task number \<open>n\<close>, spawned for \<open>tid\<close>, runs to its end: it is
  \<^verbatim>\<open>_initialize_tool(tid)\<close>, and the task is no longer live, whether it ended with an
  exception or not. The task has effects only after the tool's initializer has
  returned, so it is one step, at its end, on the entry that is under \<open>tid\<close> then.\<close>

definition finish_task ::
  "real \<Rightarrow> nat \<Rightarrow> string \<Rightarrow> ToolMapManager \<Rightarrow> base_exception option \<times> ToolMapManager" where
  "finish_task now n tid s =
     (case initialize_tool now tid s of
        (exc, s1) \<Rightarrow> (exc, s1\<lparr> live_tasks := AList.delete n (live_tasks s1) \<rparr>))"

text \<open>The event loop runs a background task to its end; it only runs live tasks.\<close>

definition initialization_task :: "real \<Rightarrow> nat \<Rightarrow> ToolMapManager \<Rightarrow> ToolMapManager" where
  "initialization_task now n s =
     (case map_of (live_tasks s) n of
        None \<Rightarrow> s
      | Some tid \<Rightarrow> snd (finish_task now n tid s))"

subsection \<open>Waiting for initializations\<close>

text \<open>
  \<^verbatim>\<open>asyncio.wait_for(task, timeout)\<close> returns when the task ends within the timeout;
  otherwise it cancels the task, waits until the cancellation has taken effect and raises
  \<^verbatim>\<open>TimeoutError\<close>. Whether the task ends in time is the parameter \<open>in_time\<close>. The awaited
  task has started and is suspended in the tool's \<^verbatim>\<open>initialize\<close> (the wait lets the event
  loop run it), so the cancellation is raised there as \<^verbatim>\<open>CancelledError\<close>: the handler
  \<^verbatim>\<open>except Exception\<close> of \<^verbatim>\<open>_initialize_tool\<close> lets it pass and the \<^verbatim>\<open>finally\<close> block drops
  the handle. A handle in the table belongs to a task that has not ended
  (\<open>handles_pending_reachable\<close>). An exception
  of the task that is no instance of \<^verbatim>\<open>Exception\<close> passes through both handlers of the
  waiting function. Without a handle the function returns \<^verbatim>\<open>entry and entry.status ==
  READY\<close>, which is \<^verbatim>\<open>None\<close> for an unknown id.
\<close>

definition timed_out :: "string \<Rightarrow> nat \<Rightarrow> ToolMapManager \<Rightarrow> ToolMapManager" where
  "timed_out tid n s =
     (cancel_task n s)\<lparr> initialization_tasks := AList.delete tid (initialization_tasks s) \<rparr>"

definition wait_for_tool_initialization ::
  "bool \<Rightarrow> real \<Rightarrow> string \<Rightarrow> ToolMapManager \<Rightarrow> (base_exception + pyval) \<times> ToolMapManager" where
  "wait_for_tool_initialization in_time now tid s =
     (case map_of (initialization_tasks s) tid of
        None \<Rightarrow>
          (case map_of (tool_map s) tid of
             None \<Rightarrow> (Inr PNone, s)
           | Some entry \<Rightarrow> (Inr (PBool (status entry = READY)), s))
      | Some n \<Rightarrow>
          if in_time
          then (case finish_task now n tid s of
                  (Some exc, s1) \<Rightarrow> (Inl exc, s1)
                | (None, s1) \<Rightarrow> (Inr (PBool True), s1))
          else (Inr (PBool False), timed_out tid n s))"

text \<open>
  \<^verbatim>\<open>wait_for_all_initializations\<close> waits for \<^verbatim>\<open>gather\<close> of all handles. The tasks that end
  in time (\<open>in_time\<close>, by tool id) take effect in the order of the table; the first
  exception of one of them ends the wait and leaves the other tasks running. On a
  timeout \<^verbatim>\<open>wait_for\<close> cancels the gathering, which cancels every task that has not ended.
\<close>

fun finish_tasks ::
  "real \<Rightarrow> (string \<times> nat) list \<Rightarrow> ToolMapManager \<Rightarrow> base_exception option \<times> ToolMapManager" where
  "finish_tasks now [] s = (None, s)"
| "finish_tasks now ((tid, n) # rest) s =
     (case finish_task now n tid s of
        (Some exc, s1) \<Rightarrow> (Some exc, s1)
      | (None, s1) \<Rightarrow> finish_tasks now rest s1)"

definition wait_for_all_initializations ::
  "(string \<Rightarrow> bool) \<Rightarrow> real \<Rightarrow> ToolMapManager \<Rightarrow> (base_exception + bool) \<times> ToolMapManager" where
  "wait_for_all_initializations in_time now s =
     (if initialization_tasks s = [] then (Inr True, s)
      else
        (case finish_tasks now (filter (\<lambda>(tid, n). in_time tid) (initialization_tasks s)) s of
           (Some exc, s1) \<Rightarrow> (Inl exc, s1)
         | (None, s1) \<Rightarrow>
             if list_all (\<lambda>(tid, n). in_time tid) (initialization_tasks s)
             then (Inr True, s1\<lparr> initialization_tasks := [] \<rparr>)
             else (Inr False,
                   fold (\<lambda>(tid, n) s2. timed_out tid n s2)
                     (filter (\<lambda>(tid, n). \<not> in_time tid) (initialization_tasks s)) s1)))"

subsection \<open>Execution\<close>

text \<open>
  What \<^verbatim>\<open>execute_tool\<close> returns: the object that the tool returned, or a dictionary that
  the registry builds, with the keys \<^verbatim>\<open>success\<close> (false), \<^verbatim>\<open>error\<close> and \<^verbatim>\<open>tool\<close>. No
  tool ever gets hold of a dictionary of the second kind.
\<close>

datatype result = Returned nat | Failure string string

definition result_dict :: "world \<Rightarrow> result \<Rightarrow> dict" where
  "result_dict w r =
     (case r of
        Returned a \<Rightarrow> dict_of w a
      | Failure msg tid \<Rightarrow> [(''success'', PBool False), (''error'', PStr msg), (''tool'', PStr tid)])"

text \<open>
  \<^verbatim>\<open>execute_tool\<close> has two suspension points: the \<^verbatim>\<open>await\<close> of the lazy initialization
  and the \<^verbatim>\<open>await\<close> of the tool's \<^verbatim>\<open>execute\<close>. They cut it into three pieces, each of
  which runs without interruption. A piece looks the entry up under its id: the
  function holds the entry object from its first line on, and while a call of a batch
  is suspended only the other calls of the batch and background initializations run,
  none of which removes an entry, so the object held is the entry under that id; the
  branches for a missing entry after the first piece are never taken
  (\<open>execute_tool_frame\<close>, \<open>advance_frame\<close>).
\<close>

datatype ready_check = Rejected result | Started real

datatype begun = NeedsInit | Checked ready_check

text \<open>From the readiness test to the assignment of EXECUTING and the reading of the
  start time.\<close>

definition check_ready ::
  "string \<Rightarrow> ToolEntryDTO \<Rightarrow> real \<Rightarrow> ToolMapManager \<Rightarrow> ready_check \<times> ToolMapManager" where
  "check_ready tid entry now s =
     (if \<not> is_ready entry
      then (Rejected (Failure (''Tool '' @ tid @ '' is not ready (status: ''
                                 @ status_value (status entry) @ '')'') tid), s)
      else (Started now, put_entry tid (entry\<lparr> status := EXECUTING \<rparr>) s))"

text \<open>The first piece: up to the \<^verbatim>\<open>await\<close> of the initialization, or, for an entry that
  is not UNINITIALIZED, up to the call of the tool.\<close>

definition begin_call :: "string \<Rightarrow> real \<Rightarrow> ToolMapManager \<Rightarrow> begun \<times> ToolMapManager" where
  "begin_call tid now s =
     (case map_of (tool_map s) tid of
        None \<Rightarrow> (Checked (Rejected (Failure (''Tool '' @ tid @ '' not found'') tid)), s)
      | Some entry \<Rightarrow>
          if status entry = UNINITIALIZED then (NeedsInit, s)
          else (case check_ready tid entry now s of (c, s1) \<Rightarrow> (Checked c, s1)))"

text \<open>The second piece: the initialization ends (\<^verbatim>\<open>_initialize_tool\<close>, run by
  \<^verbatim>\<open>_ensure_tool_initialized\<close>), then the readiness test.\<close>

definition finish_init ::
  "string \<Rightarrow> real \<Rightarrow> ToolMapManager \<Rightarrow> (base_exception + ready_check) \<times> ToolMapManager" where
  "finish_init tid now s =
     (case initialize_tool now tid s of
        (Some exc, s1) \<Rightarrow> (Inl exc, s1)
      | (None, s1) \<Rightarrow>
          (case map_of (tool_map s1) tid of
             None \<Rightarrow> (Inr (Rejected (Failure (''Tool '' @ tid @ '' not found'') tid)), s1)
           | Some entry \<Rightarrow> (case check_ready tid entry now s1 of (c, s2) \<Rightarrow> (Inr c, s2))))"

text \<open>
  The last piece: the tool's call ends at \<open>now + dt\<close>, and the function goes on to its
  return. The parameter \<open>str_of\<close> is Python's \<^verbatim>\<open>str\<close> of the result. An exception that
  \<^verbatim>\<open>except Exception\<close> does not catch leaves the function at once: nothing is recorded
  and the entry keeps the status EXECUTING.
\<close>

definition finish_call ::
  "(world \<Rightarrow> nat \<Rightarrow> string) \<Rightarrow> string \<Rightarrow> nat \<Rightarrow> real \<Rightarrow> world \<Rightarrow> real \<Rightarrow> ToolMapManager
     \<Rightarrow> (base_exception + result) \<times> world \<times> real \<times> ToolMapManager" where
  "finish_call str_of tid ctx start_time w now s =
     (case map_of (tool_map s) tid of
        None \<Rightarrow> (Inr (Failure (''Tool '' @ tid @ '' not found'') tid), w, now, s)
      | Some entry \<Rightarrow>
          (case execute (tool_instance entry) ctx w of
             ExecAborts exc w1 dt \<Rightarrow> (Inl exc, w1, now + dt, s)
           | ExecRaises msg w1 dt \<Rightarrow>
               (Inr (Failure msg tid), w1, now + dt,
                put_entry tid ((record_error (now + dt) msg entry)\<lparr> status := READY \<rparr>) s)
           | ExecReturns res w1 dt \<Rightarrow>
               (case update_execution_stats (now + dt) (now + dt - start_time) entry of
                  (Some msg, entry3) \<Rightarrow>
                    (Inr (Failure msg tid), w1, now + dt,
                     put_entry tid ((record_error (now + dt) msg entry3)\<lparr> status := READY \<rparr>) s)
                | (None, entry3) \<Rightarrow>
                    (let entry4 = add_to_execution_history (now + dt)
                           [(''query'', get_default (dict_of w1 ctx) ''query'' (PStr [])),
                            (''result'', PStr (take 200 (replace_newlines (str_of w1 res)))),
                            (''success'', get_default (dict_of w1 res) ''success'' (PBool False)),
                            (''execution_time'', PFloat (now + dt - start_time))] entry3
                     in (Inr (Returned res), w1, now + dt,
                         put_entry tid (entry4\<lparr> status := READY \<rparr>)
                           (s\<lparr> total_executions := total_executions s + 1 \<rparr>))))))"

text \<open>
  \<^verbatim>\<open>execute_tool\<close> called on its own: the three pieces one after the other. The value is
  the returned dictionary or the exception that left the function, the heap, the clock
  at the end and the registry.
\<close>

definition execute_tool ::
  "(world \<Rightarrow> nat \<Rightarrow> string) \<Rightarrow> string \<Rightarrow> nat \<Rightarrow> world \<Rightarrow> real \<Rightarrow> ToolMapManager
     \<Rightarrow> (base_exception + result) \<times> world \<times> real \<times> ToolMapManager" where
  "execute_tool str_of tid ctx w now s =
     (case begin_call tid now s of
        (Checked (Rejected r), s1) \<Rightarrow> (Inr r, w, now, s1)
      | (Checked (Started start_time), s1) \<Rightarrow> finish_call str_of tid ctx start_time w now s1
      | (NeedsInit, s1) \<Rightarrow>
          (case finish_init tid now s1 of
             (Inl exc, s2) \<Rightarrow> (Inl exc, w, now, s2)
           | (Inr (Rejected r), s2) \<Rightarrow> (Inr r, w, now, s2)
           | (Inr (Started start_time), s2) \<Rightarrow> finish_call str_of tid ctx start_time w now s2))"

subsection \<open>Batches\<close>

text \<open>The dictionary \<^verbatim>\<open>results\<close> of \<^verbatim>\<open>execute_multiple_tools\<close>. In parallel mode
  \<^verbatim>\<open>tool_results\<close> can hold an exception object in place of a dictionary.\<close>

record batch =
  tools_executed :: "string list"
  tool_results :: "(string \<times> (base_exception + result)) list"
  success :: bool
  total_time :: real

definition empty_batch :: batch where
  "empty_batch = \<lparr> tools_executed = [], tool_results = [], success = True, total_time = 0 \<rparr>"

text \<open>
  The loop of the sequential branch: one \<^verbatim>\<open>execute_tool\<close> per id, all on the same context
  object, which gains the key \<^verbatim>\<open><id>_result\<close> after a truthy \<^verbatim>\<open>success\<close>. The
  \<^verbatim>\<open>success\<close> of a dictionary built by the registry is false. An exception that leaves
  \<^verbatim>\<open>execute_tool\<close> leaves the loop.
\<close>

fun run_sequential ::
  "(world \<Rightarrow> nat \<Rightarrow> string) \<Rightarrow> string list \<Rightarrow> nat \<Rightarrow> batch \<Rightarrow> world \<Rightarrow> real \<Rightarrow> ToolMapManager
     \<Rightarrow> (base_exception + batch) \<times> world \<times> real \<times> ToolMapManager" where
  "run_sequential str_of [] ctx results w now s = (Inr results, w, now, s)"
| "run_sequential str_of (tid # tids) ctx results w now s =
     (case execute_tool str_of tid ctx w now s of
        (Inl exc, w1, now1, s1) \<Rightarrow> (Inl exc, w1, now1, s1)
      | (Inr r, w1, now1, s1) \<Rightarrow>
          (let results1 = results\<lparr> tools_executed := tools_executed results @ [tid],
                                  tool_results := AList.update tid (Inr r) (tool_results results) \<rparr>
           in case r of
                Returned a \<Rightarrow>
                  if truthy w1 (map_of (dict_of w1 a) ''success'')
                  then run_sequential str_of tids ctx results1
                         (set_item ctx (tid @ ''_result'') (PRef a) w1) now1 s1
                  else run_sequential str_of tids ctx (results1\<lparr> success := False \<rparr>) w1 now1 s1
              | Failure msg t \<Rightarrow>
                  run_sequential str_of tids ctx (results1\<lparr> success := False \<rparr>) w1 now1 s1))"

text \<open>
  The parallel branch. The list comprehension creates, for every id in order, a
  coroutine with its own \<^verbatim>\<open>context.copy()\<close>; \<^verbatim>\<open>gather\<close> makes each a task. The event loop
  starts the tasks in the order of the list and runs one piece of one task at a time;
  between two pieces of a task, pieces of other tasks and whole background
  initializations may run. Which piece runs next is the schedule, a parameter. An event
  that cannot take place (a task that is not there, has ended or may not start yet) is
  skipped; after the schedule every task is run to its end, since \<^verbatim>\<open>gather\<close> waits for
  all. Time passes only when the call of a tool ends: the clock moves on by the seconds
  of the outcome. \<^verbatim>\<open>KeyboardInterrupt\<close> and \<^verbatim>\<open>SystemExit\<close> raised in a task stop the event loop; any
  other exception of a task becomes its entry in the list that \<^verbatim>\<open>gather\<close> returns.
\<close>

datatype task_state = Waiting | Initializing | Executing real | Done "base_exception + result"

record task =
  task_tool :: string
  task_context :: nat
  task_state :: task_state

record gathering =
  tasks :: "task list"
  heap :: world
  clock :: real
  registry :: ToolMapManager
  stopped :: "base_exception option"

datatype event = Advance nat | Background nat

fun make_tasks :: "string list \<Rightarrow> nat \<Rightarrow> world \<Rightarrow> task list \<times> world" where
  "make_tasks [] ctx w = ([], w)"
| "make_tasks (tid # tids) ctx w =
     (case copy_dict ctx w of
        (c, w1) \<Rightarrow>
          (case make_tasks tids ctx w1 of
             (ts, w2) \<Rightarrow> (\<lparr> task_tool = tid, task_context = c, task_state = Waiting \<rparr> # ts, w2)))"

definition escapes_loop :: "base_exception \<Rightarrow> bool" where
  "escapes_loop exc = (exc = KeyboardInterrupt \<or> exc = SystemExit)"

definition set_state :: "nat \<Rightarrow> task_state \<Rightarrow> gathering \<Rightarrow> gathering" where
  "set_state i st g = g\<lparr> tasks := (tasks g)[i := (tasks g ! i)\<lparr> task_state := st \<rparr>] \<rparr>"

definition end_task :: "nat \<Rightarrow> base_exception + result \<Rightarrow> gathering \<Rightarrow> gathering" where
  "end_task i r g =
     (set_state i (Done r) g)
       \<lparr> stopped := (case r of Inl exc \<Rightarrow> if escapes_loop exc then Some exc else None | Inr x \<Rightarrow> None) \<rparr>"

definition after_check :: "nat \<Rightarrow> ready_check \<Rightarrow> gathering \<Rightarrow> gathering" where
  "after_check i c g =
     (case c of Rejected r \<Rightarrow> end_task i (Inr r) g | Started start_time \<Rightarrow> set_state i (Executing start_time) g)"

definition advance :: "(world \<Rightarrow> nat \<Rightarrow> string) \<Rightarrow> nat \<Rightarrow> gathering \<Rightarrow> gathering" where
  "advance str_of i g =
     (if stopped g \<noteq> None \<or> length (tasks g) \<le> i then g
      else
        (let t = tasks g ! i
         in case task_state t of
              Done r \<Rightarrow> g
            | Waiting \<Rightarrow>
                if list_ex (\<lambda>t1. task_state t1 = Waiting) (take i (tasks g)) then g
                else
                  (case begin_call (task_tool t) (clock g) (registry g) of
                     (NeedsInit, s1) \<Rightarrow> set_state i Initializing (g\<lparr> registry := s1 \<rparr>)
                   | (Checked c, s1) \<Rightarrow> after_check i c (g\<lparr> registry := s1 \<rparr>))
            | Initializing \<Rightarrow>
                (case finish_init (task_tool t) (clock g) (registry g) of
                   (Inl exc, s1) \<Rightarrow> end_task i (Inl exc) (g\<lparr> registry := s1 \<rparr>)
                 | (Inr c, s1) \<Rightarrow> after_check i c (g\<lparr> registry := s1 \<rparr>))
            | Executing start_time \<Rightarrow>
                (case finish_call str_of (task_tool t) (task_context t) start_time (heap g) (clock g)
                        (registry g) of
                   (r, w1, now1, s1) \<Rightarrow>
                     end_task i r (g\<lparr> heap := w1, clock := now1, registry := s1 \<rparr>))))"

fun apply_event :: "(world \<Rightarrow> nat \<Rightarrow> string) \<Rightarrow> event \<Rightarrow> gathering \<Rightarrow> gathering" where
  "apply_event str_of (Advance i) g = advance str_of i g"
| "apply_event str_of (Background n) g =
     (if stopped g \<noteq> None then g
      else g\<lparr> registry := initialization_task (clock g) n (registry g) \<rparr>)"

definition run_to_end :: "nat \<Rightarrow> event list" where
  "run_to_end n = concat (map (\<lambda>i. [Advance i, Advance i, Advance i]) [0..<n])"

definition run_parallel ::
  "(world \<Rightarrow> nat \<Rightarrow> string) \<Rightarrow> event list \<Rightarrow> string list \<Rightarrow> nat \<Rightarrow> world \<Rightarrow> real \<Rightarrow> ToolMapManager
     \<Rightarrow> gathering" where
  "run_parallel str_of schedule tool_ids ctx w now s =
     (case make_tasks tool_ids ctx w of
        (ts, w1) \<Rightarrow>
          fold (apply_event str_of) (schedule @ run_to_end (length ts))
            \<lparr> tasks = ts, heap = w1, clock = now, registry = s, stopped = None \<rparr>)"

text \<open>What \<^verbatim>\<open>gather(..., return_exceptions=True)\<close> returns for a task: an instance of
  \<^verbatim>\<open>Exception\<close> (by its message; \<^verbatim>\<open>execute_tool\<close> never ends with one), another exception,
  or the value returned.\<close>

datatype gathered = GatheredException string | GatheredOther base_exception | GatheredResult result

definition gathered_results :: "task list \<Rightarrow> (string \<times> gathered) list" where
  "gathered_results ts =
     concat (map (\<lambda>t. case task_state t of
                         Done (Inl exc) \<Rightarrow> [(task_tool t, GatheredOther exc)]
                       | Done (Inr r) \<Rightarrow> [(task_tool t, GatheredResult r)]
                       | Waiting \<Rightarrow> [] | Initializing \<Rightarrow> [] | Executing start_time \<Rightarrow> []) ts)"

text \<open>The loop over \<^verbatim>\<open>zip(tool_ids, tool_results)\<close>: only an instance of \<^verbatim>\<open>Exception\<close> is
  turned into a failure dictionary and clears the flag.\<close>

fun collect :: "(string \<times> gathered) list \<Rightarrow> batch \<Rightarrow> batch" where
  "collect [] results = results"
| "collect ((tid, GatheredException msg) # rest) results =
     collect rest
       (results\<lparr> success := False,
                 tools_executed := tools_executed results @ [tid],
                 tool_results := AList.update tid (Inr (Failure msg tid)) (tool_results results) \<rparr>)"
| "collect ((tid, GatheredOther exc) # rest) results =
     collect rest
       (results\<lparr> tools_executed := tools_executed results @ [tid],
                 tool_results := AList.update tid (Inl exc) (tool_results results) \<rparr>)"
| "collect ((tid, GatheredResult r) # rest) results =
     collect rest
       (results\<lparr> tools_executed := tools_executed results @ [tid],
                 tool_results := AList.update tid (Inr r) (tool_results results) \<rparr>)"

definition execute_multiple_tools ::
  "(world \<Rightarrow> nat \<Rightarrow> string) \<Rightarrow> event list \<Rightarrow> string list \<Rightarrow> nat \<Rightarrow> bool \<Rightarrow> world \<Rightarrow> real
     \<Rightarrow> ToolMapManager \<Rightarrow> (base_exception + batch) \<times> world \<times> real \<times> ToolMapManager" where
  "execute_multiple_tools str_of schedule tool_ids ctx sequential w now s =
     (let results = empty_batch
      in if sequential
         then (case run_sequential str_of tool_ids ctx results w now s of
                 (Inl exc, w1, now1, s1) \<Rightarrow> (Inl exc, w1, now1, s1)
               | (Inr results1, w1, now1, s1) \<Rightarrow>
                   (Inr (results1\<lparr> total_time := now1 - now \<rparr>), w1, now1, s1))
         else (let g = run_parallel str_of schedule tool_ids ctx w now s
               in case stopped g of
                    Some exc \<Rightarrow> (Inl exc, heap g, clock g, registry g)
                  | None \<Rightarrow>
                      (Inr ((collect (gathered_results (tasks g)) results)
                              \<lparr> total_time := clock g - now \<rparr>),
                       heap g, clock g, registry g)))"

subsection \<open>The shared context in a sequential batch\<close>

text \<open>What the sequential loop does to the heap after a call: the result of a truthy
  \<^verbatim>\<open>success\<close> is stored in the context under \<^verbatim>\<open><id>_result\<close>.\<close>

definition inject :: "string \<Rightarrow> nat \<Rightarrow> result \<Rightarrow> world \<Rightarrow> world" where
  "inject tid ctx r w =
     (case r of
        Returned a \<Rightarrow>
          if truthy w (map_of (dict_of w a) ''success'')
          then set_item ctx (tid @ ''_result'') (PRef a) w else w
      | Failure msg t \<Rightarrow> w)"

text \<open>In the sequential run of the ids \<open>tids\<close> from the given state, every call hands the
  context back with the key \<open>k\<close> as it found it: no tool executed in the run removes or
  changes that key.\<close>

fun key_kept ::
  "(world \<Rightarrow> nat \<Rightarrow> string) \<Rightarrow> string list \<Rightarrow> nat \<Rightarrow> string \<Rightarrow> world \<Rightarrow> real \<Rightarrow> ToolMapManager
     \<Rightarrow> bool" where
  "key_kept str_of [] ctx k w now s = True"
| "key_kept str_of (tid # tids) ctx k w now s =
     (case execute_tool str_of tid ctx w now s of
        (Inl exc, w1, now1, s1) \<Rightarrow> map_of (dict_of w1 ctx) k = map_of (dict_of w ctx) k
      | (Inr r, w1, now1, s1) \<Rightarrow>
          map_of (dict_of w1 ctx) k = map_of (dict_of w ctx) k
          \<and> key_kept str_of tids ctx k (inject tid ctx r w1) now1 s1)"

subsection \<open>Sequences of calls\<close>

text \<open>
  The calls a host makes on one registry, each with the clock reading at its start and
  with what the environment decides (schedules, whether a wait ends in time); the run of
  a background initialization, which the event loop may schedule between any two calls;
  and whatever the host and the tools do to the heap in between.
\<close>

datatype call =
    AddTool real string tool add_tool_args
  | RemoveTool string
  | Cleanup
  | ExecuteTool string nat real
  | ExecuteMultipleTools "event list" "string list" nat bool real
  | InitializationTask real nat
  | WaitForTool bool real string
  | WaitForAll "string \<Rightarrow> bool" real
  | Elsewhere "world \<Rightarrow> world"

fun apply_call ::
  "(world \<Rightarrow> nat \<Rightarrow> string) \<Rightarrow> call \<Rightarrow> world \<times> ToolMapManager \<Rightarrow> world \<times> ToolMapManager" where
  "apply_call str_of (AddTool now tid inst args) (w, s) = (w, snd (add_tool now tid inst args s))"
| "apply_call str_of (RemoveTool tid) (w, s) = (w, snd (remove_tool tid s))"
| "apply_call str_of Cleanup (w, s) = (w, cleanup s)"
| "apply_call str_of (ExecuteTool tid ctx now) (w, s) =
     (case execute_tool str_of tid ctx w now s of (r, w1, now1, s1) \<Rightarrow> (w1, s1))"
| "apply_call str_of (ExecuteMultipleTools schedule tids ctx sequential now) (w, s) =
     (case execute_multiple_tools str_of schedule tids ctx sequential w now s of
        (r, w1, now1, s1) \<Rightarrow> (w1, s1))"
| "apply_call str_of (InitializationTask now n) (w, s) = (w, initialization_task now n s)"
| "apply_call str_of (WaitForTool in_time now tid) (w, s) =
     (w, snd (wait_for_tool_initialization in_time now tid s))"
| "apply_call str_of (WaitForAll in_time now) (w, s) =
     (w, snd (wait_for_all_initializations in_time now s))"
| "apply_call str_of (Elsewhere f) (w, s) = (f w, s)"

fun run_calls ::
  "(world \<Rightarrow> nat \<Rightarrow> string) \<Rightarrow> call list \<Rightarrow> world \<times> ToolMapManager \<Rightarrow> world \<times> ToolMapManager" where
  "run_calls str_of [] ws = ws"
| "run_calls str_of (c # cs) ws = run_calls str_of cs (apply_call str_of c ws)"

text \<open>The bookkeeping invariant: the keys of the map are distinct, as in any dictionary,
  and the map holds as many entries as were added and not removed.\<close>

definition counters_agree :: "ToolMapManager \<Rightarrow> bool" where
  "counters_agree s =
     (distinct (map fst (tool_map s)) \<and> count s = total_added s - total_removed s)"

text \<open>No entry of the registry has a negative execution count: entries are created with
  the count 0 and the count is only ever incremented.\<close>

definition counts_nonneg :: "ToolMapManager \<Rightarrow> bool" where
  "counts_nonneg s = list_all (\<lambda>(tid, e). 0 \<le> execution_count e) (tool_map s)"

text \<open>What the execution of tools and the initializations leave alone: the ids of the
  map in their order, the two counters and the capacity; and they keep the execution
  counts from becoming negative.\<close>

definition same_tools :: "ToolMapManager \<Rightarrow> ToolMapManager \<Rightarrow> bool" where
  "same_tools s s1 =
     (map fst (tool_map s1) = map fst (tool_map s) \<and> total_added s1 = total_added s
      \<and> total_removed s1 = total_removed s \<and> max_tools s1 = max_tools s)"

definition keeps :: "ToolMapManager \<Rightarrow> ToolMapManager \<Rightarrow> bool" where
  "keeps s s1 = (same_tools s s1 \<and> (counts_nonneg s \<longrightarrow> counts_nonneg s1))"

text \<open>The truth value of \<^verbatim>\<open>result.get("success")\<close>, and the batch after a result has been
  recorded in the sequential loop.\<close>

definition succeeded :: "world \<Rightarrow> result \<Rightarrow> bool" where
  "succeeded w r = truthy w (map_of (result_dict w r) ''success'')"

definition recorded :: "string \<Rightarrow> result \<Rightarrow> world \<Rightarrow> batch \<Rightarrow> batch" where
  "recorded tid r w results =
     results\<lparr> tools_executed := tools_executed results @ [tid],
              tool_results := AList.update tid (Inr r) (tool_results results),
              success := (success results \<and> succeeded w r) \<rparr>"

text \<open>Every handle of the table belongs to a live task, which initializes the tool id of
  the handle; the task numbers in use are below the number of tasks spawned; and every
  handle is for an id of the map.\<close>

definition handles_pending :: "ToolMapManager \<Rightarrow> bool" where
  "handles_pending s =
     (list_all (\<lambda>(tid, n). map_of (live_tasks s) n = Some tid) (initialization_tasks s)
      \<and> list_all (\<lambda>(n, tid). n < spawned_tasks s) (live_tasks s)
      \<and> list_all (\<lambda>(tid, n). map_of (tool_map s) tid \<noteq> None) (initialization_tasks s))"

section \<open>Examples\<close>

text \<open>
  A fragment of the Unicode tables: the entries for the code points below 256 and for
  the Greek letters U+0391 to U+03A9 and U+03B1 to U+03C9. No other code point occurs in
  the examples.
\<close>

definition sample_ucd :: ucd where
  "sample_ucd =
     \<lparr> to_lower_full =
         (\<lambda>c. if (65 \<le> c \<and> c \<le> 90) \<or> (192 \<le> c \<and> c \<le> 222 \<and> c \<noteq> 215)
                   \<or> (913 \<le> c \<and> c \<le> 937 \<and> c \<noteq> 930)
               then [c + 32] else [c]),
       is_cased =
         (\<lambda>c. (65 \<le> c \<and> c \<le> 90) \<or> (97 \<le> c \<and> c \<le> 122) \<or> c = 170 \<or> c = 181 \<or> c = 186
               \<or> (192 \<le> c \<and> c \<le> 255 \<and> c \<noteq> 215 \<and> c \<noteq> 247)
               \<or> (913 \<le> c \<and> c \<le> 937 \<and> c \<noteq> 930) \<or> (945 \<le> c \<and> c \<le> 969)),
       is_case_ignorable =
         (\<lambda>c. c = 39 \<or> c = 46 \<or> c = 58 \<or> c = 94 \<or> c = 96 \<or> c = 168 \<or> c = 173 \<or> c = 175
               \<or> c = 180 \<or> c = 183 \<or> c = 184) \<rparr>"

text \<open>The heap of the examples: nothing but one empty context, at address 0.\<close>

definition start_world :: world where
  "start_world = \<lparr> objects = (\<lambda>a. []), allocated = 1 \<rparr>"

text \<open>
  The end-to-end scenario of the specification: a registry of capacity two and the tool
  \<^verbatim>\<open>cost_estimator\<close> without an initializer, whose stub returns a new dictionary
  \<^verbatim>\<open>{"success": True, "value": 42}\<close> after one second; tools that raise
  \<^verbatim>\<open>RuntimeError(msg)\<close>; and a tool that is cancelled.
\<close>

definition stub_tool :: tool where
  "stub_tool =
     \<lparr> initialize = None,
       execute = (\<lambda>ctx w. case new_object [(''success'', PBool True), (''value'', PInt 42)] w of
                             (a, w1) \<Rightarrow> ExecReturns a w1 1) \<rparr>"

definition raising_tool :: "string \<Rightarrow> tool" where
  "raising_tool msg = \<lparr> initialize = None, execute = (\<lambda>ctx w. ExecRaises msg w 1) \<rparr>"

definition cancelled_tool :: tool where
  "cancelled_tool = \<lparr> initialize = None, execute = (\<lambda>ctx w. ExecAborts CancelledError w 1) \<rparr>"

definition cost_args :: add_tool_args where
  "cost_args =
     \<lparr> arg_name = [], arg_description = [], arg_handler_name = [], arg_llm_config = None,
       arg_system_prompt = [], arg_capabilities = None,
       arg_keywords = Some [codepoints ''cost'', codepoints ''estimate''], arg_metadata = None \<rparr>"

definition ready_entry :: "string \<Rightarrow> tool \<Rightarrow> ToolEntryDTO" where
  "ready_entry tid inst =
     \<lparr> tool_id = tid, tool_instance = inst, name = codepoints tid,
       description = [], category = ''tool'', handler_name = [], llm_config = [],
       system_prompt = [], capabilities = [],
       keyword_list = [codepoints ''cost'', codepoints ''estimate''],
       status = READY, initialized_at = Some 0, last_executed = None, execution_count = 0,
       total_execution_time = 0, average_execution_time = 0, execution_history = [],
       max_history_size = 50, error_count = 0, last_error = None, last_error_time = None,
       metadata = [] \<rparr>"

definition cost_entry :: ToolEntryDTO where
  "cost_entry = ready_entry ''cost_estimator'' stub_tool"

definition cost_manager :: ToolMapManager where
  "cost_manager = snd (add_tool 0 ''cost_estimator'' stub_tool cost_args (new_manager ''session'' 2 0))"

definition str_stub :: "world \<Rightarrow> nat \<Rightarrow> string" where
  "str_stub w a = ''{...}''"

text \<open>An entry with the capital sigma U+03A3 as its keyword, and one with the keyword
  \<^verbatim>\<open>"Cost"\<close>.\<close>

definition sigma_entry :: ToolEntryDTO where
  "sigma_entry = cost_entry\<lparr> keyword_list := [[0x3A3]] \<rparr>"

definition capital_entry :: ToolEntryDTO where
  "capital_entry = cost_entry\<lparr> keyword_list := [codepoints ''Cost''] \<rparr>"

text \<open>Registries with one READY tool: one that raises an exception without a message, as
  \<^verbatim>\<open>raise RuntimeError()\<close> does (\<^verbatim>\<open>str(e)\<close> is the empty string), one that raises
  \<^verbatim>\<open>RuntimeError("boom")\<close>, and one that is cancelled.\<close>

definition silent_manager :: ToolMapManager where
  "silent_manager = snd (add_tool 0 ''silent'' (raising_tool []) cost_args (new_manager ''session'' 2 0))"

definition boom_manager :: ToolMapManager where
  "boom_manager = snd (add_tool 0 ''a'' (raising_tool ''boom'') cost_args (new_manager ''session'' 2 0))"

definition cancelled_manager :: ToolMapManager where
  "cancelled_manager = snd (add_tool 0 ''c'' cancelled_tool cost_args (new_manager ''session'' 2 0))"

text \<open>
  Three tools for chaining: \<^verbatim>\<open>a\<close> is the stub; \<^verbatim>\<open>eraser\<close> succeeds after
  \<^verbatim>\<open>context.clear()\<close>; \<^verbatim>\<open>probe\<close> succeeds and reports under \<^verbatim>\<open>saw\<close> what its context
  holds under \<^verbatim>\<open>a_result\<close> (\<^verbatim>\<open>context.get("a_result")\<close>).
\<close>

definition eraser_tool :: tool where
  "eraser_tool =
     \<lparr> initialize = None,
       execute = (\<lambda>ctx w. case new_object [(''success'', PBool True)]
                                  (w\<lparr> objects := (objects w)(ctx := []) \<rparr>) of
                             (a, w1) \<Rightarrow> ExecReturns a w1 1) \<rparr>"

definition probe_tool :: tool where
  "probe_tool =
     \<lparr> initialize = None,
       execute = (\<lambda>ctx w. case new_object
                                  [(''success'', PBool True),
                                   (''saw'', get_default (dict_of w ctx) ''a_result'' PNone)] w of
                             (a, w1) \<Rightarrow> ExecReturns a w1 1) \<rparr>"

definition chain_manager :: ToolMapManager where
  "chain_manager =
     snd (add_tool 0 ''probe'' probe_tool cost_args
       (snd (add_tool 0 ''eraser'' eraser_tool cost_args
         (snd (add_tool 0 ''a'' stub_tool cost_args (new_manager ''session'' 3 0))))))"



text \<open>A registry with the tool \<^verbatim>\<open>a\<close> that raises \<^verbatim>\<open>RuntimeError("boom")\<close> and the stub
  \<^verbatim>\<open>b\<close>.\<close>

definition mixed_manager :: ToolMapManager where
  "mixed_manager = snd (add_tool 0 ''b'' stub_tool cost_args boom_manager)"

text \<open>The states of the batch \<^verbatim>\<open>["a"]\<close> that starts in parallel mode at time 1 on
  \<open>boom_manager\<close> with the context at address 0: the call has not started, it is
  suspended in the tool, it has ended.\<close>

definition boom_waiting :: gathering where
  "boom_waiting =
     \<lparr> tasks = [\<lparr> task_tool = ''a'', task_context = 1, task_state = Waiting \<rparr>],
       heap = snd (copy_dict 0 start_world), clock = 1, registry = boom_manager, stopped = None \<rparr>"

definition boom_executing :: gathering where
  "boom_executing = advance str_stub 0 boom_waiting"

definition boom_done :: gathering where
  "boom_done = advance str_stub 0 boom_executing"

section \<open>The matching score\<close>

lemma accumulate_mono: "0 \<le> w \<Longrightarrow> score \<le> accumulate U w score ks q"
proof (induction ks arbitrary: score)
  case Nil
  then show ?case by simp
next
  case (Cons k ks)
  have "score \<le> (if sublist (lower U k) q then score + w else score)"
    using Cons.prems by simp
  also have "\<dots> \<le> accumulate U w (if sublist (lower U k) q then score + w else score) ks q"
    using Cons.IH [OF Cons.prems] .
  finally show ?case by simp
qed

lemma accumulate_hit:
  "0 \<le> w \<Longrightarrow> k \<in> set ks \<Longrightarrow> sublist (lower U k) q \<Longrightarrow> score + w \<le> accumulate U w score ks q"
proof (induction ks arbitrary: score)
  case Nil
  then show ?case by simp
next
  case (Cons a ks)
  show ?case
  proof (cases "a = k")
    case True
    then show ?thesis
      using Cons.prems accumulate_mono [of w "score + w" U ks q] by simp
  next
    case False
    then have mem: "k \<in> set ks" using Cons.prems by simp
    have "score + w \<le> (if sublist (lower U a) q then score + w else score) + w"
      using Cons.prems by simp
    also have "\<dots> \<le> accumulate U w (if sublist (lower U a) q then score + w else score) ks q"
      using Cons.IH [OF Cons.prems(1) mem Cons.prems(3)] .
    finally show ?thesis by simp
  qed
qed

lemma accumulate_miss:
  "list_all (\<lambda>k. \<not> sublist (lower U k) q) ks \<Longrightarrow> accumulate U w score ks q = score"
  by (induction ks arbitrary: score) auto

lemma accumulate_shift: "accumulate U w (score + d) ks q = accumulate U w score ks q + d"
proof (induction ks arbitrary: score)
  case Nil
  show ?case by simp
next
  case (Cons k ks)
  show ?case
  proof (cases "sublist (lower U k) q")
    case True
    have "accumulate U w (score + d + w) ks q = accumulate U w (score + w + d) ks q"
      by (simp add: add.assoc add.commute [of d w])
    also have "\<dots> = accumulate U w (score + w) ks q + d"
      by (rule Cons.IH)
    finally show ?thesis using True by simp
  next
    case False
    then show ?thesis using Cons.IH [of score] by simp
  qed
qed

lemma accumulate_append:
  "accumulate U w score (ks1 @ ks2) q = accumulate U w (accumulate U w score ks1 q) ks2 q"
  by (induction ks1 arbitrary: score) simp_all

text \<open>Lower-casing is a code point by code point mapping except at a capital sigma; a
  text without capital sigma that occurs in a query occurs in it in lower case, too.\<close>

lemma lower_from_plain:
  "0x3A3 \<notin> set k \<Longrightarrow>
     lower_from U before (k @ post) = concat (map (to_lower_full U) k) @ lower_from U (rev k @ before) post"
  by (induction k arbitrary: before) (simp_all add: lower_at_def)

lemma lower_plain: "0x3A3 \<notin> set k \<Longrightarrow> lower U k = concat (map (to_lower_full U) k)"
  using lower_from_plain [of k U "[]" "[]"] by (simp add: lower_def)

lemma lower_from_inner:
  "0x3A3 \<notin> set k \<Longrightarrow>
     \<exists>A B. lower_from U before (pre @ k @ post) = A @ concat (map (to_lower_full U) k) @ B"
proof (induction pre arbitrary: before)
  case Nil
  then show ?case using lower_from_plain [of k U before post] by (metis append_Nil)
next
  case (Cons x pre)
  obtain A B where "lower_from U (x # before) (pre @ k @ post) = A @ concat (map (to_lower_full U) k) @ B"
    using Cons.IH [OF Cons.prems] by blast
  then have "lower_from U before ((x # pre) @ k @ post)
      = (lower_at U before x (pre @ k @ post) @ A) @ concat (map (to_lower_full U) k) @ B"
    by simp
  then show ?case by blast
qed

lemma sublist_lower:
  assumes "0x3A3 \<notin> set k" and "sublist k query"
  shows "sublist (lower U k) (lower U query)"
proof -
  obtain pre post where q: "query = pre @ k @ post"
    using assms(2) by (auto simp: sublist_def)
  obtain A B where "lower_from U [] (pre @ k @ post) = A @ concat (map (to_lower_full U) k) @ B"
    using lower_from_inner [OF assms(1)] by blast
  then have "lower U query = A @ lower U k @ B"
    using q assms(1) by (simp add: lower_def lower_plain [symmetric])
  then show ?thesis by (auto simp: sublist_def)
qed

lemma lower_empty: "lower U [] = []"
  by (simp add: lower_def)

lemma raw_score_keyword:
  assumes "k \<in> set (keyword_list e)" and "sublist (lower U k) (lower U query)"
  shows "0.4 \<le> raw_score U e query"
proof -
  let ?q = "lower U query"
  have a: "0.4 \<le> accumulate U 0.4 0 (keyword_list e) ?q"
    using accumulate_hit [of "0.4" k "keyword_list e" U ?q 0] assms by simp
  have b: "accumulate U 0.4 0 (keyword_list e) ?q
      \<le> accumulate U 0.3 (accumulate U 0.4 0 (keyword_list e) ?q) (capabilities e) ?q"
    by (rule accumulate_mono) simp
  show ?thesis
    using a b unfolding raw_score_def Let_def by (auto split: if_splits)
qed

lemma raw_score_nonneg: "0 \<le> raw_score U e query"
proof -
  let ?q = "lower U query"
  have a: "0 \<le> accumulate U 0.4 0 (keyword_list e) ?q"
    by (rule accumulate_mono) simp
  have b: "accumulate U 0.4 0 (keyword_list e) ?q
      \<le> accumulate U 0.3 (accumulate U 0.4 0 (keyword_list e) ?q) (capabilities e) ?q"
    by (rule accumulate_mono) simp
  show ?thesis
    using a b unfolding raw_score_def Let_def by (auto split: if_splits)
qed

lemma raw_score_name:
  assumes "sublist (lower U (name e)) (lower U query)"
  shows "0.2 \<le> raw_score U e query"
proof -
  let ?q = "lower U query"
  have a: "0 \<le> accumulate U 0.4 0 (keyword_list e) ?q"
    by (rule accumulate_mono) simp
  have b: "accumulate U 0.4 0 (keyword_list e) ?q
      \<le> accumulate U 0.3 (accumulate U 0.4 0 (keyword_list e) ?q) (capabilities e) ?q"
    by (rule accumulate_mono) simp
  show ?thesis
    using a b assms unfolding raw_score_def Let_def by (auto split: if_splits)
qed

lemma raw_score_none:
  assumes "list_all (\<lambda>k. \<not> sublist (lower U k) (lower U query)) (keyword_list e)"
    and "list_all (\<lambda>c. \<not> sublist (lower U c) (lower U query)) (capabilities e)"
    and "\<not> sublist (lower U (name e)) (lower U query)"
    and "list_all (\<lambda>w. \<not> sublist w (lower U query)) (split (lower U (description e)))"
  shows "raw_score U e query = 0"
proof -
  have "\<not> list_ex (\<lambda>word. sublist word (lower U query)) (split (lower U (description e)))"
    using assms(4) by (simp add: list_all_iff list_ex_iff)
  then show ?thesis
    using assms(1-3) unfolding raw_score_def Let_def by (simp add: accumulate_miss)
qed

lemma raw_score_empty_keyword_any:
  "raw_score U (e\<lparr> keyword_list := ks1 @ [] # ks2 \<rparr>) query
     = raw_score U (e\<lparr> keyword_list := ks1 @ ks2 \<rparr>) query + 0.4"
proof -
  let ?q = "lower U query"
  have "accumulate U 0.4 0 (ks1 @ [] # ks2) ?q = accumulate U 0.4 (accumulate U 0.4 0 ks1 ?q + 0.4) ks2 ?q"
    by (simp add: accumulate_append lower_empty)
  also have "\<dots> = accumulate U 0.4 0 (ks1 @ ks2) ?q + 0.4"
    by (simp only: accumulate_append accumulate_shift)
  finally have k: "accumulate U 0.4 0 (ks1 @ [] # ks2) ?q = accumulate U 0.4 0 (ks1 @ ks2) ?q + 0.4" .
  have c: "accumulate U 0.3 (accumulate U 0.4 0 (ks1 @ [] # ks2) ?q) (capabilities e) ?q
      = accumulate U 0.3 (accumulate U 0.4 0 (ks1 @ ks2) ?q) (capabilities e) ?q + 0.4"
    by (simp only: k accumulate_shift)
  show ?thesis
    unfolding raw_score_def Let_def using c by simp
qed

lemma codepoints_empty: "codepoints tid = [] \<longleftrightarrow> tid = []"
  by (simp add: codepoints_def)

lemma add_tool_name:
  assumes "add_tool now tid inst args s = (Inr True, s')"
  shows "\<exists>entry. map_of (tool_map s') tid = Some entry \<and> name entry \<noteq> []
           \<and> name entry = (if arg_name args = [] then codepoints tid else arg_name args)"
  using assms unfolding add_tool_def new_entry_def Let_def
  by (auto split: if_splits option.splits simp: update_conv' codepoints_empty)

lemma cost_manager_eval:
  "cost_manager = (new_manager ''session'' 2 0)\<lparr> tool_map := [(''cost_estimator'', cost_entry)], total_added := 1 \<rparr>"
  by (simp add: cost_manager_def add_tool_def new_manager_def new_entry_def cost_args_def
      cost_entry_def ready_entry_def stub_tool_def or_else_def)

text \<open>
  Claim C8. \<^verbatim>\<open>matches_query\<close> is a function of the entry and the query alone and compares
  lower-case forms. A query whose lower-case form contains the lower-case form of one of
  the entry's keywords scores at least 0.4; this is so, in particular, for a query that
  contains, as it is written, a keyword without a capital sigma. A query in whose
  lower-case form the lower-case form of no keyword, of no capability and of the name and
  no whitespace-separated word of the lower-case description occurs scores exactly 0.
  Every score lies between 0 and 1.
\<close>

theorem matches_query_score:
  "(k \<in> set (keyword_list e) \<and> sublist (lower U k) (lower U query) \<longrightarrow> 0.4 \<le> matches_query U e query)
   \<and> (k \<in> set (keyword_list e) \<and> sublist k query \<and> 0x3A3 \<notin> set k \<longrightarrow> 0.4 \<le> matches_query U e query)
   \<and> (list_all (\<lambda>k. \<not> sublist (lower U k) (lower U query)) (keyword_list e)
      \<and> list_all (\<lambda>c. \<not> sublist (lower U c) (lower U query)) (capabilities e)
      \<and> \<not> sublist (lower U (name e)) (lower U query)
      \<and> list_all (\<lambda>w. \<not> sublist w (lower U query)) (split (lower U (description e)))
      \<longrightarrow> matches_query U e query = 0)
   \<and> 0 \<le> matches_query U e query \<and> matches_query U e query \<le> 1"
  unfolding matches_query_def
  using raw_score_keyword [of k e U query] raw_score_none [of U query e] raw_score_nonneg [of U e query]
    sublist_lower [of k query U]
  by auto

theorem matches_query_score_witness:
  "codepoints ''Cost'' \<in> set (keyword_list capital_entry)
   \<and> \<not> sublist (codepoints ''Cost'') (codepoints ''my COST'')
   \<and> sublist (lower sample_ucd (codepoints ''Cost'')) (lower sample_ucd (codepoints ''my COST''))
   \<and> 0.4 \<le> matches_query sample_ucd capital_entry (codepoints ''my COST'')
   \<and> codepoints ''cost'' \<in> set (keyword_list cost_entry)
   \<and> sublist (codepoints ''cost'') (codepoints ''estimate my cost'')
   \<and> 0x3A3 \<notin> set (codepoints ''cost'')
   \<and> 0.4 \<le> matches_query sample_ucd cost_entry (codepoints ''estimate my cost'')
   \<and> list_all (\<lambda>k. \<not> sublist (lower sample_ucd k) (lower sample_ucd (codepoints ''Hello'')))
        (keyword_list cost_entry)
   \<and> list_all (\<lambda>c. \<not> sublist (lower sample_ucd c) (lower sample_ucd (codepoints ''Hello'')))
        (capabilities cost_entry)
   \<and> \<not> sublist (lower sample_ucd (name cost_entry)) (lower sample_ucd (codepoints ''Hello''))
   \<and> list_all (\<lambda>w. \<not> sublist w (lower sample_ucd (codepoints ''Hello'')))
        (split (lower sample_ucd (description cost_entry)))
   \<and> matches_query sample_ucd cost_entry (codepoints ''Hello'') = 0"
proof -
  have k1: "codepoints ''Cost'' \<in> set (keyword_list capital_entry)"
    by (simp add: capital_entry_def)
  have f1: "\<not> sublist (codepoints ''Cost'') (codepoints ''my COST'')"
    by code_simp
  have s1: "sublist (lower sample_ucd (codepoints ''Cost'')) (lower sample_ucd (codepoints ''my COST''))"
    by code_simp
  have k2: "codepoints ''cost'' \<in> set (keyword_list cost_entry)"
    by (simp add: cost_entry_def ready_entry_def)
  have s2: "sublist (codepoints ''cost'') (codepoints ''estimate my cost'')"
    by code_simp
  have p2: "0x3A3 \<notin> set (codepoints ''cost'')"
    by code_simp
  have n1: "list_all (\<lambda>k. \<not> sublist (lower sample_ucd k) (lower sample_ucd (codepoints ''Hello'')))
      [codepoints ''cost'', codepoints ''estimate'']"
    by code_simp
  have n3: "\<not> sublist (lower sample_ucd (codepoints ''cost_estimator'')) (lower sample_ucd (codepoints ''Hello''))"
    by code_simp
  have n4: "split (lower sample_ucd []) = []"
    by code_simp
  have none: "list_all (\<lambda>k. \<not> sublist (lower sample_ucd k) (lower sample_ucd (codepoints ''Hello'')))
        (keyword_list cost_entry)
   \<and> list_all (\<lambda>c. \<not> sublist (lower sample_ucd c) (lower sample_ucd (codepoints ''Hello'')))
        (capabilities cost_entry)
   \<and> \<not> sublist (lower sample_ucd (name cost_entry)) (lower sample_ucd (codepoints ''Hello''))
   \<and> list_all (\<lambda>w. \<not> sublist w (lower sample_ucd (codepoints ''Hello'')))
        (split (lower sample_ucd (description cost_entry)))"
    using n1 n3 n4 by (simp add: cost_entry_def ready_entry_def)
  show ?thesis
    using k1 f1 s1 k2 s2 p2 none
      matches_query_score [of "codepoints ''Cost''" capital_entry sample_ucd "codepoints ''my COST''"]
      matches_query_score [of "codepoints ''cost''" cost_entry sample_ucd "codepoints ''estimate my cost''"]
      matches_query_score [of "codepoints ''cost''" cost_entry sample_ucd "codepoints ''Hello''"]
    by blast
qed

text \<open>
  The keyword that consists of the capital sigma U+03A3 occurs in the query U+0391
  U+03A3 (capital alpha, capital sigma), but the score is 0: the sigma of the query
  follows a letter at the end of the text and becomes the final sigma U+03C2, the
  keyword on its own becomes the small sigma U+03C3.
\<close>

theorem sigma_keyword_not_matched:
  "[0x3A3] \<in> set (keyword_list sigma_entry) \<and> sublist [0x3A3::nat] [0x391, 0x3A3]
   \<and> lower sample_ucd [0x3A3] = [0x3C3] \<and> lower sample_ucd [0x391, 0x3A3] = [0x3B1, 0x3C2]
   \<and> matches_query sample_ucd sigma_entry [0x391, 0x3A3] = 0"
proof -
  have k: "[0x3A3] \<in> set (keyword_list sigma_entry)"
    by (simp add: sigma_entry_def)
  have s: "sublist [0x3A3::nat] [0x391, 0x3A3]"
    by code_simp
  have l1: "lower sample_ucd [0x3A3] = [0x3C3]"
    by code_simp
  have l2: "lower sample_ucd [0x391, 0x3A3] = [0x3B1, 0x3C2]"
    by code_simp
  have n1: "\<not> sublist [0x3C3::nat] [0x3B1, 0x3C2]"
    by code_simp
  have n3: "\<not> sublist (lower sample_ucd (codepoints ''cost_estimator'')) [0x3B1, 0x3C2]"
    by code_simp
  have n4: "split (lower sample_ucd []) = []"
    by code_simp
  have "raw_score sample_ucd sigma_entry [0x391, 0x3A3] = 0"
    unfolding raw_score_def Let_def
    using l1 l2 n1 n3 n4 by (simp add: sigma_entry_def cost_entry_def ready_entry_def)
  then show ?thesis
    using k s l1 l2 by (simp add: matches_query_def)
qed

text \<open>
  Claim C10. An entry whose name is the empty string scores at least 0.2 on every query,
  and an entry with an empty string among its keywords scores at least 0.4 on every
  query: wherever the empty keyword stands in the list, it adds exactly 0.4 to the score
  before the cap. An entry created by \<^verbatim>\<open>add_tool\<close> never has an empty name: the name
  is the one given or, when that is empty, the tool id, which is not empty.
\<close>

theorem empty_name_and_keyword_scores:
  "(name e = [] \<longrightarrow> 0.2 \<le> matches_query U e query)
   \<and> ([] \<in> set (keyword_list e) \<longrightarrow> 0.4 \<le> matches_query U e query)
   \<and> raw_score U (e\<lparr> keyword_list := ks1 @ [] # ks2 \<rparr>) query
       = raw_score U (e\<lparr> keyword_list := ks1 @ ks2 \<rparr>) query + 0.4
   \<and> (add_tool now tid inst args s = (Inr True, s') \<longrightarrow>
        (\<exists>entry. map_of (tool_map s') tid = Some entry \<and> name entry \<noteq> []
           \<and> name entry = (if arg_name args = [] then codepoints tid else arg_name args)))"
proof -
  have a: "name e = [] \<Longrightarrow> 0.2 \<le> matches_query U e query"
    using raw_score_name [of U e query] by (simp add: matches_query_def lower_empty)
  have b: "[] \<in> set (keyword_list e) \<Longrightarrow> 0.4 \<le> matches_query U e query"
    using raw_score_keyword [of "[]" e U query] by (simp add: matches_query_def lower_empty)
  have c: "raw_score U (e\<lparr> keyword_list := ks1 @ [] # ks2 \<rparr>) query
       = raw_score U (e\<lparr> keyword_list := ks1 @ ks2 \<rparr>) query + 0.4"
    by (rule raw_score_empty_keyword_any)
  have d: "add_tool now tid inst args s = (Inr True, s') \<Longrightarrow>
        (\<exists>entry. map_of (tool_map s') tid = Some entry \<and> name entry \<noteq> []
           \<and> name entry = (if arg_name args = [] then codepoints tid else arg_name args))"
    by (rule add_tool_name)
  show ?thesis
    using a b c d by blast
qed

theorem empty_name_and_keyword_scores_witness:
  "name (cost_entry\<lparr> name := [] \<rparr>) = []
   \<and> 0.2 \<le> matches_query sample_ucd (cost_entry\<lparr> name := [] \<rparr>) (codepoints ''Hello'')
   \<and> [] \<in> set (keyword_list (cost_entry\<lparr> keyword_list := [[]] \<rparr>))
   \<and> 0.4 \<le> matches_query sample_ucd (cost_entry\<lparr> keyword_list := [[]] \<rparr>) (codepoints ''Hello'')
   \<and> add_tool 0 ''cost_estimator'' stub_tool cost_args (new_manager ''session'' 2 0)
        = (Inr True, cost_manager)
   \<and> (\<exists>entry. map_of (tool_map cost_manager) ''cost_estimator'' = Some entry
         \<and> name entry = codepoints ''cost_estimator'')"
proof -
  have add: "add_tool 0 ''cost_estimator'' stub_tool cost_args (new_manager ''session'' 2 0)
        = (Inr True, cost_manager)"
    by (simp add: cost_manager_def add_tool_def new_manager_def new_entry_def cost_args_def
        stub_tool_def or_else_def)
  have nm: "arg_name cost_args = []"
    by (simp add: cost_args_def)
  have h1: "name (cost_entry\<lparr> name := [] \<rparr>) = []"
    by simp
  have h2: "[] \<in> set (keyword_list (cost_entry\<lparr> keyword_list := [[]] \<rparr>))"
    by simp
  note t1 = empty_name_and_keyword_scores [where e = "cost_entry\<lparr> name := [] \<rparr>"
      and U = sample_ucd
      and query = "codepoints ''Hello''" and now = 0 and tid = "''cost_estimator''" and inst = stub_tool
      and args = cost_args and s = "new_manager ''session'' 2 0" and s' = cost_manager]
  note t2 = empty_name_and_keyword_scores [where e = "cost_entry\<lparr> keyword_list := [[]] \<rparr>"
      and U = sample_ucd and query = "codepoints ''Hello''"]
  have c1: "0.2 \<le> matches_query sample_ucd (cost_entry\<lparr> name := [] \<rparr>) (codepoints ''Hello'')"
    using t1 h1 by blast
  have c2: "0.4 \<le> matches_query sample_ucd (cost_entry\<lparr> keyword_list := [[]] \<rparr>) (codepoints ''Hello'')"
    using t2 h2 by blast
  have c3: "\<exists>entry. map_of (tool_map cost_manager) ''cost_estimator'' = Some entry
         \<and> name entry = codepoints ''cost_estimator''"
    using t1 add nm by auto
  show ?thesis
    using h1 h2 c1 c2 c3 add by blast
qed

section \<open>The bounded history\<close>

lemma slice_from_last_n: "0 < m \<Longrightarrow> slice_from (- m) xs = last_n (nat m) xs"
  unfolding slice_from_def last_n_def Let_def
  by (auto simp: max_def nat_diff_distrib' intro!: arg_cong [where f = "\<lambda>k. drop k xs"])

lemma slice_from_zero: "slice_from 0 xs = xs"
  by (simp add: slice_from_def)

lemma last_n_short: "length xs \<le> n \<Longrightarrow> last_n n xs = xs"
  by (simp add: last_n_def)

lemma length_last_n: "length (last_n n xs) = min n (length xs)"
  by (auto simp: last_n_def)

lemma last_n_snoc:
  assumes "0 < n"
  shows "last_n n (last_n n xs @ [x]) = last_n n (xs @ [x])"
proof (cases "length xs \<le> n")
  case True
  then show ?thesis by (simp add: last_n_def)
next
  case False
  then have len: "n < length xs" by simp
  have a: "length (drop (length xs - n) xs) = n"
    using len by simp
  have b: "Suc (length xs) - n = Suc (length xs - n)"
    using len by simp
  have c: "Suc n - n = Suc 0"
    by simp
  have "last_n n (last_n n xs @ [x]) = drop (Suc 0) (drop (length xs - n) xs @ [x])"
    unfolding last_n_def using a c by simp
  also have "\<dots> = drop (Suc 0) (drop (length xs - n) xs) @ [x]"
    using a assms by simp
  also have "\<dots> = drop (Suc (length xs - n)) xs @ [x]"
    by simp
  also have "\<dots> = last_n n (xs @ [x])"
    unfolding last_n_def using b len assms by simp
  finally show ?thesis .
qed

lemma history_after_add:
  assumes "0 < max_history_size e"
  shows "execution_history (add_to_execution_history now entry e)
           = last_n (nat (max_history_size e)) (execution_history e @ [stamped now entry])"
proof (cases "int (length (execution_history e @ [stamped now entry])) > max_history_size e")
  case True
  then show ?thesis
    using assms by (simp add: add_to_execution_history_def Let_def slice_from_last_n)
next
  case False
  then have "length (execution_history e @ [stamped now entry]) \<le> nat (max_history_size e)"
    by linarith
  then show ?thesis
    using False by (simp add: add_to_execution_history_def Let_def last_n_short del: length_append)
qed

lemma max_history_size_add [simp]:
  "max_history_size (add_to_execution_history now entry e) = max_history_size e"
  by (simp add: add_to_execution_history_def Let_def)

lemma max_history_size_add_all [simp]: "max_history_size (add_all recs e) = max_history_size e"
  by (induction recs arbitrary: e) auto

lemma history_after_add_all:
  assumes "0 < max_history_size e" and "recs \<noteq> []"
  shows "execution_history (add_all recs e)
           = last_n (nat (max_history_size e))
               (execution_history e @ map (\<lambda>(now, entry). stamped now entry) recs)"
  using assms
proof (induction recs arbitrary: e)
  case Nil
  then show ?case by simp
next
  case (Cons r recs)
  obtain now entry where r: "r = (now, entry)" by (cases r)
  let ?e1 = "add_to_execution_history now entry e"
  let ?m = "nat (max_history_size e)"
  have h1: "execution_history ?e1 = last_n ?m (execution_history e @ [stamped now entry])"
    using Cons.prems(1) by (rule history_after_add)
  show ?case
  proof (cases "recs = []")
    case True
    then show ?thesis using h1 r by simp
  next
    case False
    have pos: "0 < ?m" using Cons.prems(1) by simp
    have gen: "last_n ?m (last_n ?m xs @ ys) = last_n ?m (xs @ ys)" if "ys \<noteq> []" for xs ys :: "dict list"
      using that
    proof (induction ys arbitrary: xs rule: rev_induct)
      case Nil
      then show ?case by simp
    next
      case (snoc y ys)
      show ?case
      proof (cases "ys = []")
        case True
        then show ?thesis using last_n_snoc [OF pos] by simp
      next
        case False
        have "last_n ?m (last_n ?m xs @ ys @ [y]) = last_n ?m (last_n ?m (last_n ?m xs @ ys) @ [y])"
          using last_n_snoc [OF pos, of "last_n ?m xs @ ys" y] by simp
        also have "\<dots> = last_n ?m (last_n ?m (xs @ ys) @ [y])"
          using snoc.IH [OF False] by simp
        also have "\<dots> = last_n ?m (xs @ ys @ [y])"
          using last_n_snoc [OF pos, of "xs @ ys" y] by simp
        finally show ?thesis .
      qed
    qed
    have "execution_history (add_all recs ?e1)
        = last_n ?m (execution_history ?e1 @ map (\<lambda>(now, entry). stamped now entry) recs)"
      using Cons.IH [of ?e1] Cons.prems(1) False by simp
    also have "\<dots> = last_n ?m ((execution_history e @ [stamped now entry])
                        @ map (\<lambda>(now, entry). stamped now entry) recs)"
      unfolding h1 using gen [of "map (\<lambda>(now, entry). stamped now entry) recs"] False by simp
    finally show ?thesis using r by simp
  qed
qed

lemma history_bounded:
  assumes "0 < max_history_size e" and "recs \<noteq> []"
  shows "int (length (execution_history (add_all recs e))) \<le> max_history_size e"
  using history_after_add_all [OF assms] assms(1) by (simp add: length_last_n)

lemma history_unbounded_zero:
  "max_history_size e = 0 \<Longrightarrow>
     execution_history (add_to_execution_history now entry e) = execution_history e @ [stamped now entry]"
  by (simp add: add_to_execution_history_def Let_def slice_from_zero)

text \<open>
  Claim C7. After any non-empty sequence of calls of \<^verbatim>\<open>add_to_execution_history\<close> the
  history of an entry with \<^verbatim>\<open>max_history_size\<close> at least 1 holds the most recent
  \<^verbatim>\<open>max_history_size\<close> records in insertion order and never more
  (\<open>history_after_add_all\<close>, \<open>history_bounded\<close>). The claim is stated for every entry,
  and the cap is a field of the constructor. With the cap 0 the trimming statement runs
  (the length exceeds 0) but assigns \<^verbatim>\<open>history[-0:]\<close>, which is the whole list: nothing
  is discarded. Two records added to an entry with cap 0 are both kept.
\<close>

theorem history_cap_zero_keeps_everything:
  "length (execution_history
     (add_all [(1, [(''success'', PBool True)]), (2, [(''success'', PBool False)])]
        (cost_entry\<lparr> max_history_size := 0 \<rparr>))) = 2
   \<and> max_history_size (add_all [(1, [(''success'', PBool True)]), (2, [(''success'', PBool False)])]
        (cost_entry\<lparr> max_history_size := 0 \<rparr>)) = 0"
  by (simp add: history_unbounded_zero cost_entry_def ready_entry_def)
section \<open>Registration\<close>

lemma add_tool_full:
  "int (length (tool_map s)) \<ge> max_tools s \<Longrightarrow> add_tool now tid inst args s = (Inr False, s)"
  by (simp add: add_tool_def)

lemma add_tool_duplicate:
  "map_of (tool_map s) tid \<noteq> None \<Longrightarrow> add_tool now tid inst args s = (Inr False, s)"
  by (simp add: add_tool_def)

lemma add_tool_True:
  assumes "add_tool now tid inst args s = (Inr True, s1)"
  shows "int (length (tool_map s)) < max_tools s" and "map_of (tool_map s) tid = None"
    and "tid \<noteq> []"
    and "map fst (tool_map s1) = map fst (tool_map s) @ [tid]"
    and "\<exists>entry. map_of (tool_map s1) tid = Some entry"
    and "total_added s1 = total_added s + 1" and "total_removed s1 = total_removed s"
    and "total_executions s1 = total_executions s" and "max_tools s1 = max_tools s"
proof -
  show a: "int (length (tool_map s)) < max_tools s" and b: "map_of (tool_map s) tid = None"
    using assms by (auto simp: add_tool_def split: if_splits)
  have notin: "tid \<notin> set (map fst (tool_map s))"
    using b by (simp add: map_of_eq_None_iff)
  show "map fst (tool_map s1) = map fst (tool_map s) @ [tid]"
    using assms a b notin unfolding add_tool_def new_entry_def Let_def
    by (auto split: if_splits option.splits simp: update_keys)
  have rest: "tid \<noteq> [] \<and> (\<exists>entry. map_of (tool_map s1) tid = Some entry)
      \<and> total_added s1 = total_added s + 1 \<and> total_removed s1 = total_removed s
      \<and> total_executions s1 = total_executions s \<and> max_tools s1 = max_tools s"
    using assms a b unfolding add_tool_def new_entry_def Let_def
    by (auto split: if_splits option.splits simp: update_conv')
  then show "tid \<noteq> []" and "\<exists>entry. map_of (tool_map s1) tid = Some entry"
    and "total_added s1 = total_added s + 1" and "total_removed s1 = total_removed s"
    and "total_executions s1 = total_executions s" and "max_tools s1 = max_tools s"
    by blast+
qed

lemma add_tool_not_True:
  "add_tool now tid inst args s = (r, s1) \<Longrightarrow> r \<noteq> Inr True \<Longrightarrow> s1 = s"
  unfolding add_tool_def new_entry_def Let_def
  by (auto split: if_splits option.splits)

text \<open>
  Claim C3. \<^verbatim>\<open>add_tool\<close> returns false and leaves the whole registry as it was (the tool
  map with every entry, the handles and the counters) when the map holds \<^verbatim>\<open>max_tools\<close>
  entries or more, or when the id is present. In particular, after a successful
  \<^verbatim>\<open>add_tool\<close> for an id, any further \<^verbatim>\<open>add_tool\<close> for that id returns false and
  changes nothing.
\<close>

theorem add_tool_rejects:
  "(max_tools s \<le> count s \<or> get_tool s tid \<noteq> None \<longrightarrow>
      add_tool now tid inst args s = (Inr False, s))
   \<and> (add_tool now tid inst args s = (Inr True, s1) \<longrightarrow>
      add_tool now2 tid inst2 args2 s1 = (Inr False, s1))"
proof -
  have first: "max_tools s \<le> count s \<or> get_tool s tid \<noteq> None \<Longrightarrow>
      add_tool now tid inst args s = (Inr False, s)"
    using add_tool_full [of s now tid inst args] add_tool_duplicate [of s tid now inst args]
    by (auto simp: count_def get_tool_def)
  have second: "add_tool now2 tid inst2 args2 s1 = (Inr False, s1)"
    if added: "add_tool now tid inst args s = (Inr True, s1)"
  proof -
    obtain entry where "map_of (tool_map s1) tid = Some entry"
      using add_tool_True(5) [OF added] by blast
    then show ?thesis by (simp add: add_tool_duplicate)
  qed
  show ?thesis using first second by blast
qed

theorem add_tool_rejects_witness:
  "get_tool cost_manager ''cost_estimator'' \<noteq> None
   \<and> add_tool 5 ''cost_estimator'' (raising_tool ''boom'') cost_args cost_manager = (Inr False, cost_manager)
   \<and> max_tools (new_manager ''session'' 0 0) \<le> count (new_manager ''session'' 0 0)
   \<and> add_tool 0 ''cost_estimator'' stub_tool cost_args (new_manager ''session'' 0 0)
        = (Inr False, new_manager ''session'' 0 0)
   \<and> add_tool 0 ''cost_estimator'' stub_tool cost_args (new_manager ''session'' 2 0) = (Inr True, cost_manager)"
proof -
  have add: "add_tool 0 ''cost_estimator'' stub_tool cost_args (new_manager ''session'' 2 0)
        = (Inr True, cost_manager)"
    by (simp add: cost_manager_def add_tool_def new_manager_def new_entry_def cost_args_def
        stub_tool_def or_else_def)
  have present: "get_tool cost_manager ''cost_estimator'' \<noteq> None"
    by (simp add: cost_manager_eval get_tool_def)
  have full: "max_tools (new_manager ''session'' 0 0) \<le> count (new_manager ''session'' 0 0)"
    by (simp add: new_manager_def count_def)
  note t1 = add_tool_rejects [where s = "new_manager ''session'' 2 0" and tid = "''cost_estimator''"
      and now = 0 and inst = stub_tool and args = cost_args and ?s1.0 = cost_manager
      and ?now2.0 = 5 and ?inst2.0 = "raising_tool ''boom''" and ?args2.0 = cost_args]
  note t2 = add_tool_rejects [where s = "new_manager ''session'' 0 0" and tid = "''cost_estimator''"
      and now = 0 and inst = stub_tool and args = cost_args]
  have c1: "add_tool 5 ''cost_estimator'' (raising_tool ''boom'') cost_args cost_manager = (Inr False, cost_manager)"
    using t1 add by blast
  have c2: "add_tool 0 ''cost_estimator'' stub_tool cost_args (new_manager ''session'' 0 0)
        = (Inr False, new_manager ''session'' 0 0)"
    using t2 full by blast
  show ?thesis using present c1 full c2 add by blast
qed
section \<open>What executions and initializations leave alone\<close>

lemma list_all_update:
  "list_all P al \<Longrightarrow> P (k, v) \<Longrightarrow> list_all P (AList.update k v al)"
  by (induction al) auto

lemma list_all_delete: "list_all P al \<Longrightarrow> list_all P (AList.delete k al)"
  by (induction al) auto

lemma list_all_lookup: "list_all P al \<Longrightarrow> map_of al k = Some v \<Longrightarrow> P (k, v)"
  by (induction al) (auto split: if_splits)

lemma put_entry_fields [simp]:
  "total_added (put_entry tid e s) = total_added s"
  "total_removed (put_entry tid e s) = total_removed s"
  "total_executions (put_entry tid e s) = total_executions s"
  "max_tools (put_entry tid e s) = max_tools s"
  "initialization_tasks (put_entry tid e s) = initialization_tasks s"
  "live_tasks (put_entry tid e s) = live_tasks s"
  "spawned_tasks (put_entry tid e s) = spawned_tasks s"
  by (simp_all add: put_entry_def)

lemma put_entry_keys:
  "map_of (tool_map s) tid \<noteq> None \<Longrightarrow> map fst (tool_map (put_entry tid e s)) = map fst (tool_map s)"
  by (auto simp: put_entry_def update_keys map_of_eq_None_iff)

lemma put_entry_lookup [simp]: "map_of (tool_map (put_entry tid e s)) tid = Some e"
  by (simp add: put_entry_def update_conv')

lemma put_entry_lookup_other:
  "tid' \<noteq> tid \<Longrightarrow> map_of (tool_map (put_entry tid e s)) tid' = map_of (tool_map s) tid'"
  by (simp add: put_entry_def update_conv')

lemma keeps_refl [simp]: "keeps s s"
  by (simp add: keeps_def same_tools_def)

lemma keeps_trans: "keeps s s1 \<Longrightarrow> keeps s1 s2 \<Longrightarrow> keeps s s2"
  by (simp add: keeps_def same_tools_def)

lemma keeps_put_entry:
  assumes "map_of (tool_map s) tid = Some e0"
    and "0 \<le> execution_count e0 \<Longrightarrow> 0 \<le> execution_count e"
  shows "keeps s (put_entry tid e s)"
proof -
  have "map_of (tool_map s) tid \<noteq> None" using assms(1) by simp
  then have k: "map fst (tool_map (put_entry tid e s)) = map fst (tool_map s)"
    by (rule put_entry_keys)
  have "counts_nonneg (put_entry tid e s)" if inv: "counts_nonneg s"
  proof -
    have "0 \<le> execution_count e0"
      using list_all_lookup [OF _ assms(1), of "\<lambda>(tid, e). 0 \<le> execution_count e"] inv
      by (simp add: counts_nonneg_def)
    then show ?thesis
      using inv assms(2) by (simp add: counts_nonneg_def put_entry_def list_all_update)
  qed
  then show ?thesis using k by (simp add: keeps_def same_tools_def)
qed

lemma keeps_other_fields [simp]:
  "keeps s (s\<lparr> initialization_tasks := hs \<rparr>)"
  "keeps s (s\<lparr> live_tasks := ts \<rparr>)"
  "keeps s (s\<lparr> total_executions := n \<rparr>)"
  by (simp_all add: keeps_def same_tools_def counts_nonneg_def)

lemma keeps_counters: "keeps s s1 \<Longrightarrow> counters_agree s \<Longrightarrow> counters_agree s1"
proof -
  assume k: "keeps s s1" and inv: "counters_agree s"
  have "length (tool_map s1) = length (map fst (tool_map s1))" by simp
  also have "\<dots> = length (tool_map s)" using k by (simp add: keeps_def same_tools_def)
  finally show ?thesis using k inv by (simp add: counters_agree_def count_def keeps_def same_tools_def)
qed

lemma keeps_nonneg: "keeps s s1 \<Longrightarrow> counts_nonneg s \<Longrightarrow> counts_nonneg s1"
  by (simp add: keeps_def)

lemma keeps_present:
  "keeps s s1 \<Longrightarrow> map_of (tool_map s) tid \<noteq> None \<Longrightarrow> map_of (tool_map s1) tid \<noteq> None"
proof -
  assume k: "keeps s s1" and p: "map_of (tool_map s) tid \<noteq> None"
  have "tid \<in> set (map fst (tool_map s))"
    using p by (metis map_of_eq_None_iff set_map)
  then have "tid \<in> set (map fst (tool_map s1))"
    using k by (simp add: keeps_def same_tools_def)
  then show ?thesis by (metis map_of_eq_None_iff set_map)
qed

lemma execution_count_add_history [simp]:
  "execution_count (add_to_execution_history now entry e) = execution_count e"
  by (simp add: add_to_execution_history_def Let_def)

lemma execution_count_record_error [simp]:
  "execution_count (record_error now msg e) = execution_count e"
  by (simp add: record_error_def)

lemma execution_count_initialize_entry [simp]:
  "execution_count (snd (initialize_entry now e)) = execution_count e"
  by (simp add: initialize_entry_def split: option.splits init_outcome.splits)

lemma update_execution_stats_count:
  "update_execution_stats now dt e = (m, e3) \<Longrightarrow> execution_count e3 = execution_count e + 1"
  by (auto simp: update_execution_stats_def Let_def split: if_splits)

lemma update_execution_stats_ok:
  assumes "execution_count e \<noteq> - 1"
  shows "update_execution_stats now dt e =
     (None, e\<lparr> last_executed := Some now, execution_count := execution_count e + 1,
               total_execution_time := total_execution_time e + dt,
               average_execution_time :=
                 (total_execution_time e + dt) / real_of_int (execution_count e + 1) \<rparr>)"
proof -
  have "execution_count e + 1 \<noteq> 0" using assms by arith
  then show ?thesis by (simp add: update_execution_stats_def Let_def)
qed

lemma initialize_tool_keeps: "keeps s (snd (initialize_tool now tid s))"
proof (cases "map_of (tool_map s) tid")
  case None
  then show ?thesis by (simp add: initialize_tool_def)
next
  case (Some e)
  obtain exc e1 where i: "initialize_entry now e = (exc, e1)"
    by (cases "initialize_entry now e")
  have "execution_count e1 = execution_count e"
    using execution_count_initialize_entry [of now e] i by simp
  then have "keeps s (put_entry tid e1 s)"
    using keeps_put_entry [OF Some, of e1] by simp
  then have "keeps s ((put_entry tid e1 s)\<lparr> initialization_tasks :=
      AList.delete tid (initialization_tasks (put_entry tid e1 s)) \<rparr>)"
    by (rule keeps_trans) simp
  then show ?thesis using Some i by (simp add: initialize_tool_def)
qed

lemma finish_task_keeps: "keeps s (snd (finish_task now n tid s))"
proof -
  obtain exc s1 where i: "initialize_tool now tid s = (exc, s1)"
    by (cases "initialize_tool now tid s")
  have "keeps s s1" using initialize_tool_keeps [of s now tid] i by simp
  then have "keeps s (s1\<lparr> live_tasks := AList.delete n (live_tasks s1) \<rparr>)"
    by (rule keeps_trans) simp
  then show ?thesis using i by (simp add: finish_task_def)
qed

lemma initialization_task_keeps: "keeps s (initialization_task now n s)"
  by (simp add: initialization_task_def finish_task_keeps split: option.splits)

lemma cancel_task_keeps: "keeps s (cancel_task n s)"
  by (simp add: cancel_task_def)

lemma timed_out_keeps: "keeps s (timed_out tid n s)"
  unfolding timed_out_def by (rule keeps_trans [OF cancel_task_keeps [of s n]]) simp

lemma finish_tasks_keeps: "keeps s (snd (finish_tasks now hs s))"
proof (induction hs arbitrary: s)
  case Nil
  show ?case by simp
next
  case (Cons h hs)
  obtain tid n where h: "h = (tid, n)" by (cases h)
  obtain exc s1 where f: "finish_task now n tid s = (exc, s1)"
    by (cases "finish_task now n tid s")
  have k1: "keeps s s1" using finish_task_keeps [of s now n tid] f by simp
  show ?case
  proof (cases exc)
    case None
    then show ?thesis using h f keeps_trans [OF k1 Cons.IH [of s1]] by simp
  next
    case (Some e)
    then show ?thesis using h f k1 by simp
  qed
qed

lemma fold_timed_out_keeps: "keeps s (fold (\<lambda>(tid, n) s2. timed_out tid n s2) hs s)"
proof (induction hs arbitrary: s)
  case Nil
  show ?case by simp
next
  case (Cons h hs)
  obtain tid n where h: "h = (tid, n)" by (cases h)
  show ?case
    using keeps_trans [OF timed_out_keeps [of s tid n] Cons.IH [of "timed_out tid n s"]] h by simp
qed

lemma wait_for_tool_initialization_keeps:
  "keeps s (snd (wait_for_tool_initialization in_time now tid s))"
proof (cases "map_of (initialization_tasks s) tid")
  case None
  then show ?thesis by (simp add: wait_for_tool_initialization_def split: option.splits)
next
  case (Some n)
  show ?thesis
  proof (cases in_time)
    case True
    then show ?thesis
      using Some finish_task_keeps [of s now n tid]
      by (cases "finish_task now n tid s") (auto simp: wait_for_tool_initialization_def split: option.splits)
  next
    case False
    then show ?thesis using Some by (simp add: wait_for_tool_initialization_def timed_out_keeps)
  qed
qed

lemma wait_for_all_initializations_keeps:
  "keeps s (snd (wait_for_all_initializations in_time now s))"
proof (cases "initialization_tasks s = []")
  case True
  then show ?thesis by (simp add: wait_for_all_initializations_def)
next
  case False
  let ?hs = "filter (\<lambda>(tid, n). in_time tid) (initialization_tasks s)"
  obtain exc s1 where f: "finish_tasks now ?hs s = (exc, s1)"
    by (cases "finish_tasks now ?hs s")
  have k1: "keeps s s1" using finish_tasks_keeps [of s now ?hs] f by simp
  have k2: "keeps s (s1\<lparr> initialization_tasks := [] \<rparr>)"
    by (rule keeps_trans [OF k1]) simp
  have k3: "keeps s (fold (\<lambda>(tid, n) s2. timed_out tid n s2) hs s1)" for hs
    by (rule keeps_trans [OF k1 fold_timed_out_keeps])
  show ?thesis
    using False f k1 k2 k3 by (cases exc) (simp_all add: wait_for_all_initializations_def)
qed

lemma check_ready_keeps:
  "map_of (tool_map s) tid = Some entry \<Longrightarrow> keeps s (snd (check_ready tid entry now s))"
  using keeps_put_entry [of s tid entry "entry\<lparr> status := EXECUTING \<rparr>"]
  by (simp add: check_ready_def)

lemma begin_call_keeps: "keeps s (snd (begin_call tid now s))"
proof (cases "map_of (tool_map s) tid")
  case None
  then show ?thesis by (simp add: begin_call_def)
next
  case (Some entry)
  then show ?thesis
    using check_ready_keeps [OF Some, of now]
    by (cases "check_ready tid entry now s") (simp add: begin_call_def)
qed

lemma finish_init_keeps: "keeps s (snd (finish_init tid now s))"
proof -
  obtain exc s1 where i: "initialize_tool now tid s = (exc, s1)"
    by (cases "initialize_tool now tid s")
  have k1: "keeps s s1" using initialize_tool_keeps [of s now tid] i by simp
  show ?thesis
  proof (cases exc)
    case (Some e)
    then show ?thesis using i k1 by (simp add: finish_init_def)
  next
    case None
    show ?thesis
    proof (cases "map_of (tool_map s1) tid")
      case None
      then show ?thesis using i k1 \<open>exc = None\<close> by (simp add: finish_init_def)
    next
      case (Some entry)
      have "keeps s (snd (check_ready tid entry now s1))"
        by (rule keeps_trans [OF k1 check_ready_keeps [OF Some]])
      then show ?thesis
        using i Some \<open>exc = None\<close>
        by (cases "check_ready tid entry now s1") (simp add: finish_init_def)
    qed
  qed
qed

lemma finish_call_keeps:
  "keeps s (snd (snd (snd (finish_call str_of tid ctx start_time w now s))))"
proof (cases "map_of (tool_map s) tid")
  case None
  then show ?thesis by (simp add: finish_call_def)
next
  case (Some entry)
  have present: "map_of (tool_map (s\<lparr> total_executions := n \<rparr>)) tid = Some entry" for n
    using Some by simp
  show ?thesis
  proof (cases "execute (tool_instance entry) ctx w")
    case (ExecAborts exc w1 dt)
    then show ?thesis using Some by (simp add: finish_call_def)
  next
    case (ExecRaises msg w1 dt)
    then show ?thesis
      using Some keeps_put_entry [OF Some, of "(record_error (now + dt) msg entry)\<lparr> status := READY \<rparr>"]
      by (simp add: finish_call_def)
  next
    case (ExecReturns res w1 dt)
    obtain m e3 where u: "update_execution_stats (now + dt) (now + dt - start_time) entry = (m, e3)"
      by (cases "update_execution_stats (now + dt) (now + dt - start_time) entry")
    have c3: "execution_count e3 = execution_count entry + 1"
      using update_execution_stats_count [OF u] .
    show ?thesis
    proof (cases m)
      case (Some msg)
      then show ?thesis
        using \<open>map_of (tool_map s) tid = Some entry\<close> ExecReturns u c3
          keeps_put_entry [OF \<open>map_of (tool_map s) tid = Some entry\<close>,
            of "(record_error (now + dt) msg e3)\<lparr> status := READY \<rparr>"]
        by (simp add: finish_call_def)
    next
      case None
      let ?e4 = "(add_to_execution_history (now + dt)
                           [(''query'', get_default (dict_of w1 ctx) ''query'' (PStr [])),
                            (''result'', PStr (take 200 (replace_newlines (str_of w1 res)))),
                            (''success'', get_default (dict_of w1 res) ''success'' (PBool False)),
                            (''execution_time'', PFloat (now + dt - start_time))] e3)\<lparr> status := READY \<rparr>"
      have "keeps s (s\<lparr> total_executions := total_executions s + 1 \<rparr>)" by simp
      moreover have "keeps (s\<lparr> total_executions := total_executions s + 1 \<rparr>)
          (put_entry tid ?e4 (s\<lparr> total_executions := total_executions s + 1 \<rparr>))"
        using keeps_put_entry [OF present, of ?e4] c3 by simp
      ultimately have "keeps s (put_entry tid ?e4 (s\<lparr> total_executions := total_executions s + 1 \<rparr>))"
        by (rule keeps_trans)
      then show ?thesis
        using \<open>map_of (tool_map s) tid = Some entry\<close> ExecReturns u None
        by (simp add: finish_call_def Let_def)
    qed
  qed
qed

lemma execute_tool_keeps:
  "keeps s (snd (snd (snd (execute_tool str_of tid ctx w now s))))"
proof -
  obtain b s1 where bc: "begin_call tid now s = (b, s1)"
    by (cases "begin_call tid now s")
  have k1: "keeps s s1" using begin_call_keeps [of s tid now] bc by simp
  show ?thesis
  proof (cases b)
    case (Checked c)
    show ?thesis
    proof (cases c)
      case (Rejected r)
      then show ?thesis using bc Checked k1 by (simp add: execute_tool_def)
    next
      case (Started start_time)
      then show ?thesis
        using bc Checked keeps_trans [OF k1 finish_call_keeps [of s1 str_of tid ctx start_time w now]]
        by (simp add: execute_tool_def)
    qed
  next
    case NeedsInit
    obtain r2 s2 where fi: "finish_init tid now s1 = (r2, s2)"
      by (cases "finish_init tid now s1")
    have k2: "keeps s s2"
      using keeps_trans [OF k1 finish_init_keeps [of s1 tid now]] fi by simp
    show ?thesis
    proof (cases r2)
      case (Inl exc)
      then show ?thesis using bc NeedsInit fi k2 by (simp add: execute_tool_def)
    next
      case (Inr c)
      show ?thesis
      proof (cases c)
        case (Rejected r)
        then show ?thesis using bc NeedsInit fi Inr k2 by (simp add: execute_tool_def)
      next
        case (Started start_time)
        then show ?thesis
          using bc NeedsInit fi Inr
            keeps_trans [OF k2 finish_call_keeps [of s2 str_of tid ctx start_time w now]]
          by (simp add: execute_tool_def)
      qed
    qed
  qed
qed

text \<open>No call in a batch removes an entry: an id that is in the map when
  \<^verbatim>\<open>execute_tool\<close> starts is there throughout.\<close>

lemma execute_tool_frame:
  assumes "execute_tool str_of tid ctx w now s = (r, w1, now1, s1)"
  shows "map fst (tool_map s1) = map fst (tool_map s)"
    and "total_added s1 = total_added s" and "total_removed s1 = total_removed s"
    and "max_tools s1 = max_tools s"
  using execute_tool_keeps [of s str_of tid ctx w now] assms
  by (simp_all add: keeps_def same_tools_def)

section \<open>The counters of the registry\<close>

lemma registry_set_state [simp]: "registry (set_state i st g) = registry g"
  by (simp add: set_state_def)

lemma registry_end_task [simp]: "registry (end_task i r g) = registry g"
  by (simp add: end_task_def)

lemma registry_after_check [simp]: "registry (after_check i c g) = registry g"
  by (simp add: after_check_def split: ready_check.splits)

lemma advance_keeps: "keeps (registry g) (registry (advance str_of i g))"
proof (cases "stopped g \<noteq> None \<or> length (tasks g) \<le> i")
  case True
  then show ?thesis by (simp add: advance_def)
next
  case False
  let ?t = "tasks g ! i"
  show ?thesis
  proof (cases "task_state ?t")
    case (Done r)
    then show ?thesis using False by (simp add: advance_def Let_def)
  next
    case Waiting
    obtain b s1 where bc: "begin_call (task_tool ?t) (clock g) (registry g) = (b, s1)"
      by (cases "begin_call (task_tool ?t) (clock g) (registry g)")
    have "keeps (registry g) s1"
      using begin_call_keeps [of "registry g" "task_tool ?t" "clock g"] bc by simp
    then show ?thesis
      using False Waiting bc by (cases b) (simp_all add: advance_def Let_def)
  next
    case Initializing
    obtain r s1 where fi: "finish_init (task_tool ?t) (clock g) (registry g) = (r, s1)"
      by (cases "finish_init (task_tool ?t) (clock g) (registry g)")
    have "keeps (registry g) s1"
      using finish_init_keeps [of "registry g" "task_tool ?t" "clock g"] fi by simp
    then show ?thesis
      using False Initializing fi by (cases r) (simp_all add: advance_def Let_def)
  next
    case (Executing start_time)
    obtain r w1 now1 s1 where fc:
      "finish_call str_of (task_tool ?t) (task_context ?t) start_time (heap g) (clock g) (registry g)
         = (r, w1, now1, s1)"
      by (metis prod_cases4)
    have "keeps (registry g) s1"
      using finish_call_keeps [of "registry g" str_of "task_tool ?t" "task_context ?t" start_time
          "heap g" "clock g"] fc by simp
    then show ?thesis
      using False Executing fc by (simp add: advance_def Let_def)
  qed
qed

text \<open>The entries of the map stay in place while the tasks of a batch take their
  turns.\<close>

lemma advance_frame: "map fst (tool_map (registry (advance str_of i g))) = map fst (tool_map (registry g))"
  using advance_keeps [of g str_of i] by (simp add: keeps_def same_tools_def)

lemma apply_event_keeps: "keeps (registry g) (registry (apply_event str_of ev g))"
  by (cases ev) (simp_all add: advance_keeps initialization_task_keeps)

lemma fold_apply_event_keeps: "keeps (registry g) (registry (fold (apply_event str_of) evs g))"
proof (induction evs arbitrary: g)
  case Nil
  show ?case by simp
next
  case (Cons ev evs)
  show ?case
    using keeps_trans [OF apply_event_keeps [of g str_of ev] Cons.IH [of "apply_event str_of ev g"]]
    by simp
qed

lemma run_parallel_keeps: "keeps s (registry (run_parallel str_of schedule tids ctx w now s))"
proof -
  obtain ts w1 where m: "make_tasks tids ctx w = (ts, w1)"
    by (cases "make_tasks tids ctx w")
  show ?thesis
    using fold_apply_event_keeps [of "\<lparr> tasks = ts, heap = w1, clock = now, registry = s, stopped = None \<rparr>"
        str_of "schedule @ run_to_end (length ts)"] m
    by (simp add: run_parallel_def)
qed

lemma run_sequential_keeps:
  "keeps s (snd (snd (snd (run_sequential str_of tids ctx results w now s))))"
proof (induction tids arbitrary: results w now s)
  case Nil
  show ?case by simp
next
  case (Cons tid tids)
  obtain r w1 now1 s1 where ex: "execute_tool str_of tid ctx w now s = (r, w1, now1, s1)"
    by (metis prod_cases4)
  have k1: "keeps s s1" using execute_tool_keeps [of s str_of tid ctx w now] ex by simp
  have rest: "keeps s (snd (snd (snd (run_sequential str_of tids ctx results' w' now1 s1))))"
    for results' w'
    by (rule keeps_trans [OF k1 Cons.IH])
  show ?case
  proof (cases r)
    case (Inl exc)
    then show ?thesis using ex k1 by simp
  next
    case (Inr x)
    then show ?thesis
      using ex rest by (cases x) (simp_all add: Let_def)
  qed
qed

lemma execute_multiple_tools_keeps:
  "keeps s (snd (snd (snd (execute_multiple_tools str_of schedule tids ctx sequential w now s))))"
proof (cases sequential)
  case True
  obtain r w1 now1 s1 where q: "run_sequential str_of tids ctx empty_batch w now s = (r, w1, now1, s1)"
    by (metis prod_cases4)
  have "keeps s s1" using run_sequential_keeps [of s str_of tids ctx empty_batch w now] q by simp
  then show ?thesis
    using True q by (cases r) (simp_all add: execute_multiple_tools_def Let_def)
next
  case False
  show ?thesis
    using False run_parallel_keeps [of s str_of schedule tids ctx w now]
    by (simp add: execute_multiple_tools_def Let_def split: option.splits)
qed

lemma length_removeAll_distinct:
  "distinct xs \<Longrightarrow> x \<in> set xs \<Longrightarrow> Suc (length (removeAll x xs)) = length xs"
  by (induction xs) auto

lemma remove_tool_absent: "map_of (tool_map s) tid = None \<Longrightarrow> remove_tool tid s = (False, s)"
  by (simp add: remove_tool_def)

lemma remove_tool_present:
  assumes "map_of (tool_map s) tid \<noteq> None"
  shows "fst (remove_tool tid s) = True"
    and "map fst (tool_map (snd (remove_tool tid s))) = removeAll tid (map fst (tool_map s))"
    and "total_removed (snd (remove_tool tid s)) = total_removed s + 1"
    and "total_added (snd (remove_tool tid s)) = total_added s"
    and "map_of (tool_map (snd (remove_tool tid s))) tid = None"
  using assms
  by (auto simp: remove_tool_def cancel_task_def Let_def delete_keys delete_conv' split: option.splits)

lemma remove_tool_inv: "counters_agree s \<Longrightarrow> counters_agree (snd (remove_tool tid s))"
proof (cases "map_of (tool_map s) tid")
  case None
  assume "counters_agree s"
  then show ?thesis using None by (simp add: remove_tool_absent)
next
  case (Some e)
  assume inv: "counters_agree s"
  have present: "map_of (tool_map s) tid \<noteq> None" using Some by simp
  have mem: "tid \<in> set (map fst (tool_map s))"
    using present by (metis map_of_eq_None_iff set_map)
  have d: "distinct (map fst (tool_map s))" using inv by (simp add: counters_agree_def)
  have len: "Suc (length (removeAll tid (map fst (tool_map s)))) = length (map fst (tool_map s))"
    using d mem by (rule length_removeAll_distinct)
  have "length (tool_map (snd (remove_tool tid s))) = length (map fst (tool_map (snd (remove_tool tid s))))"
    by simp
  also have "\<dots> = length (removeAll tid (map fst (tool_map s)))"
    by (simp only: remove_tool_present(2) [OF present])
  finally have l: "Suc (length (tool_map (snd (remove_tool tid s)))) = length (tool_map s)"
    using len by simp
  have "distinct (map fst (tool_map (snd (remove_tool tid s))))"
    using d by (simp only: remove_tool_present(2) [OF present] distinct_removeAll)
  moreover have "count (snd (remove_tool tid s))
      = total_added (snd (remove_tool tid s)) - total_removed (snd (remove_tool tid s))"
    using inv l remove_tool_present(3,4) [OF present] by (simp add: counters_agree_def count_def)
  ultimately show ?thesis by (simp add: counters_agree_def)
qed

lemma fold_cancel_task_keeps: "keeps s (fold cancel_task ns s)"
proof (induction ns arbitrary: s)
  case Nil
  show ?case by simp
next
  case (Cons n ns)
  show ?case
    using keeps_trans [OF cancel_task_keeps [of s n] Cons.IH [of "cancel_task n s"]] by simp
qed

lemma cleanup_fold_inv:
  "counters_agree s \<Longrightarrow> counters_agree (fold (\<lambda>tid s1. snd (remove_tool tid s1)) tids s)"
  by (induction tids arbitrary: s) (simp_all add: remove_tool_inv)

lemma cleanup_inv: "counters_agree s \<Longrightarrow> counters_agree (cleanup s)"
  unfolding cleanup_def
  by (rule cleanup_fold_inv) (rule keeps_counters [OF fold_cancel_task_keeps])

lemma add_tool_inv:
  assumes "counters_agree s"
  shows "counters_agree (snd (add_tool now tid inst args s))"
proof -
  obtain r s1 where a: "add_tool now tid inst args s = (r, s1)"
    by (cases "add_tool now tid inst args s")
  show ?thesis
  proof (cases "r = Inr True")
    case False
    then have "s1 = s" using a by (rule add_tool_not_True [rotated])
    then show ?thesis using a assms by simp
  next
    case True
    then have t: "add_tool now tid inst args s = (Inr True, s1)" using a by simp
    have notin: "tid \<notin> set (map fst (tool_map s))"
      using add_tool_True(2) [OF t] by (metis map_of_eq_None_iff set_map)
    have k: "map fst (tool_map s1) = map fst (tool_map s) @ [tid]"
      by (rule add_tool_True(4) [OF t])
    have "length (tool_map s1) = length (map fst (tool_map s1))" by simp
    also have "\<dots> = Suc (length (tool_map s))" by (simp only: k) simp
    finally have l: "length (tool_map s1) = Suc (length (tool_map s))" .
    have "distinct (map fst (tool_map s1))"
      using assms notin by (simp only: k) (simp add: counters_agree_def)
    then show ?thesis
      using a assms l add_tool_True(6,7) [OF t] by (simp add: counters_agree_def count_def)
  qed
qed

lemma remove_tool_nonneg: "counts_nonneg s \<Longrightarrow> counts_nonneg (snd (remove_tool tid s))"
  by (simp add: remove_tool_def cancel_task_def Let_def counts_nonneg_def list_all_delete
      split: option.splits)

lemma cleanup_nonneg: "counts_nonneg s \<Longrightarrow> counts_nonneg (cleanup s)"
proof -
  have "counts_nonneg s \<Longrightarrow> counts_nonneg (fold (\<lambda>tid s1. snd (remove_tool tid s1)) tids s)" for tids s
    by (induction tids arbitrary: s) (simp_all add: remove_tool_nonneg)
  then show "counts_nonneg s \<Longrightarrow> counts_nonneg (cleanup s)"
    unfolding cleanup_def using keeps_nonneg [OF fold_cancel_task_keeps] by blast
qed

lemma add_tool_nonneg: "counts_nonneg s \<Longrightarrow> counts_nonneg (snd (add_tool now tid inst args s))"
  unfolding add_tool_def new_entry_def Let_def counts_nonneg_def
  by (auto split: option.splits intro!: list_all_update)

text \<open>The two invariants together, along any sequence of calls.\<close>

lemma apply_call_inv:
  assumes "counters_agree (snd ws) \<and> counts_nonneg (snd ws)"
  shows "counters_agree (snd (apply_call str_of c ws)) \<and> counts_nonneg (snd (apply_call str_of c ws))"
proof -
  obtain w s where ws: "ws = (w, s)" by (cases ws)
  have inv: "counters_agree s" "counts_nonneg s" using assms ws by simp_all
  have kept: "counters_agree s1 \<and> counts_nonneg s1" if "keeps s s1" for s1
    using keeps_counters [OF that inv(1)] keeps_nonneg [OF that inv(2)] by simp
  show ?thesis
  proof (cases c)
    case (AddTool now tid inst args)
    then show ?thesis using ws inv by (simp add: add_tool_inv add_tool_nonneg)
  next
    case (RemoveTool tid)
    then show ?thesis using ws inv by (simp add: remove_tool_inv remove_tool_nonneg)
  next
    case Cleanup
    then show ?thesis using ws inv by (simp add: cleanup_inv cleanup_nonneg)
  next
    case (ExecuteTool tid ctx now)
    then show ?thesis
      using ws kept [OF execute_tool_keeps [of s str_of tid ctx w now]]
      by (auto split: prod.splits)
  next
    case (ExecuteMultipleTools schedule tids ctx sequential now)
    then show ?thesis
      using ws kept [OF execute_multiple_tools_keeps [of s str_of schedule tids ctx sequential w now]]
      by (auto split: prod.splits)
  next
    case (InitializationTask now n)
    then show ?thesis using ws kept [OF initialization_task_keeps [of s now n]] by simp
  next
    case (WaitForTool in_time now tid)
    then show ?thesis
      using ws kept [OF wait_for_tool_initialization_keeps [of s in_time now tid]] by simp
  next
    case (WaitForAll in_time now)
    then show ?thesis
      using ws kept [OF wait_for_all_initializations_keeps [of s in_time now]] by simp
  next
    case (Elsewhere f)
    then show ?thesis using ws inv by simp
  qed
qed

lemma run_calls_inv:
  "counters_agree (snd ws) \<and> counts_nonneg (snd ws) \<Longrightarrow>
     counters_agree (snd (run_calls str_of cs ws)) \<and> counts_nonneg (snd (run_calls str_of cs ws))"
proof (induction cs arbitrary: ws)
  case Nil
  then show ?case by simp
next
  case (Cons c cs)
  show ?case
    using Cons.IH [OF apply_call_inv [OF Cons.prems, of str_of c]] by simp
qed

lemma new_manager_inv:
  "counters_agree (new_manager sid cap now) \<and> counts_nonneg (new_manager sid cap now)"
  by (simp add: counters_agree_def counts_nonneg_def new_manager_def count_def)

lemma reachable_inv:
  assumes "s = snd (run_calls str_of calls (w0, new_manager sid cap t0))"
  shows "counters_agree s" and "counts_nonneg s"
  using run_calls_inv [of "(w0, new_manager sid cap t0)" str_of calls] new_manager_inv [of sid cap t0]
    assms by simp_all

lemma reachable_count_nonneg:
  assumes "s = snd (run_calls str_of calls (w0, new_manager sid cap t0))" and "get_tool s tid = Some e"
  shows "0 \<le> execution_count e"
  using list_all_lookup [of "\<lambda>(tid, e). 0 \<le> execution_count e" "tool_map s" tid e]
    reachable_inv(2) [OF assms(1)] assms(2)
  by (simp add: counts_nonneg_def get_tool_def)

text \<open>
  Claim C9. In every state that a fresh registry reaches through calls of \<^verbatim>\<open>add_tool\<close>,
  \<^verbatim>\<open>remove_tool\<close> and \<^verbatim>\<open>cleanup\<close> (and also through executions, batches in either mode
  under any schedule, waits and runs of background initializations between them),
  \<^verbatim>\<open>count()\<close> equals \<^verbatim>\<open>total_added - total_removed\<close>. In such a state \<^verbatim>\<open>add_tool\<close> either
  returns true, having inserted the id and incremented \<^verbatim>\<open>total_added\<close> alone, or leaves
  the registry as it was; \<^verbatim>\<open>remove_tool\<close> either returns true, having
  deleted the id and incremented \<^verbatim>\<open>total_removed\<close> alone, or leaves the registry as it
  was; and the equation holds again after \<^verbatim>\<open>cleanup\<close>.
\<close>

theorem count_is_added_minus_removed:
  assumes "s = snd (run_calls str_of calls (w0, new_manager sid cap t0))"
  shows "count s = total_added s - total_removed s
   \<and> (case add_tool now tid inst args s of
        (r, s1) \<Rightarrow>
          if r = Inr True
          then get_tool s tid = None \<and> get_tool s1 tid \<noteq> None \<and> count s1 = count s + 1
               \<and> total_added s1 = total_added s + 1 \<and> total_removed s1 = total_removed s
          else s1 = s)
   \<and> (case remove_tool tid s of
        (b, s1) \<Rightarrow>
          if b
          then get_tool s tid \<noteq> None \<and> get_tool s1 tid = None \<and> count s1 = count s - 1
               \<and> total_removed s1 = total_removed s + 1 \<and> total_added s1 = total_added s
          else s1 = s)
   \<and> count (cleanup s) = total_added (cleanup s) - total_removed (cleanup s)"
proof -
  have inv: "counters_agree s"
    using assms by (rule reachable_inv(1))
  have c1: "count s = total_added s - total_removed s"
    using inv by (simp add: counters_agree_def)
  have c2: "case add_tool now tid inst args s of
        (r, s1) \<Rightarrow>
          if r = Inr True
          then get_tool s tid = None \<and> get_tool s1 tid \<noteq> None \<and> count s1 = count s + 1
               \<and> total_added s1 = total_added s + 1 \<and> total_removed s1 = total_removed s
          else s1 = s"
  proof -
    obtain r s1 where a: "add_tool now tid inst args s = (r, s1)"
      by (cases "add_tool now tid inst args s")
    show ?thesis
    proof (cases "r = Inr True")
      case False
      then have "s1 = s" using a by (rule add_tool_not_True [rotated])
      then show ?thesis using a False by simp
    next
      case True
      then have t: "add_tool now tid inst args s = (Inr True, s1)" using a by simp
      have "counters_agree s1" using add_tool_inv [OF inv, of now tid inst args] a by simp
      then have "count s1 = total_added s1 - total_removed s1"
        by (simp add: counters_agree_def)
      then have "count s1 = count s + 1"
        using c1 add_tool_True(6,7) [OF t] by simp
      then show ?thesis
        using a True add_tool_True(2,5,6,7) [OF t] by (auto simp: get_tool_def)
    qed
  qed
  have c3: "case remove_tool tid s of
        (b, s1) \<Rightarrow>
          if b
          then get_tool s tid \<noteq> None \<and> get_tool s1 tid = None \<and> count s1 = count s - 1
               \<and> total_removed s1 = total_removed s + 1 \<and> total_added s1 = total_added s
          else s1 = s"
  proof (cases "map_of (tool_map s) tid = None")
    case True
    then show ?thesis by (simp add: remove_tool_absent)
  next
    case False
    have "counters_agree (snd (remove_tool tid s))" using inv by (rule remove_tool_inv)
    then have "count (snd (remove_tool tid s))
        = total_added (snd (remove_tool tid s)) - total_removed (snd (remove_tool tid s))"
      by (simp add: counters_agree_def)
    then have "count (snd (remove_tool tid s)) = count s - 1"
      using c1 remove_tool_present(3,4) [OF False] by simp
    then show ?thesis
      using False remove_tool_present [OF False]
      by (cases "remove_tool tid s") (auto simp: get_tool_def)
  qed
  have c4: "count (cleanup s) = total_added (cleanup s) - total_removed (cleanup s)"
    using cleanup_inv [OF inv] by (simp add: counters_agree_def)
  show ?thesis using c1 c2 c3 c4 by blast
qed

theorem count_is_added_minus_removed_witness:
  "cost_manager = snd (run_calls str_stub [AddTool 0 ''cost_estimator'' stub_tool cost_args]
                         (start_world, new_manager ''session'' 2 0))
   \<and> count cost_manager = total_added cost_manager - total_removed cost_manager
   \<and> count cost_manager = 1
   \<and> fst (remove_tool ''cost_estimator'' cost_manager)
   \<and> count (snd (remove_tool ''cost_estimator'' cost_manager)) = 0
   \<and> total_removed (snd (remove_tool ''cost_estimator'' cost_manager)) = 1"
proof -
  have run: "cost_manager = snd (run_calls str_stub [AddTool 0 ''cost_estimator'' stub_tool cost_args]
      (start_world, new_manager ''session'' 2 0))"
    by (simp add: cost_manager_def)
  note t = count_is_added_minus_removed [OF run, where tid = "''cost_estimator''"]
  have one: "count cost_manager = 1"
    by (simp add: cost_manager_eval count_def)
  have rem: "fst (remove_tool ''cost_estimator'' cost_manager)"
    by (simp add: cost_manager_eval remove_tool_def new_manager_def)
  have zero: "total_removed cost_manager = 0"
    by (simp add: cost_manager_eval new_manager_def)
  have "count cost_manager = total_added cost_manager - total_removed cost_manager"
    using t by blast
  moreover have "count (snd (remove_tool ''cost_estimator'' cost_manager)) = 0
      \<and> total_removed (snd (remove_tool ''cost_estimator'' cost_manager)) = 1"
    using t rem one zero by (cases "remove_tool ''cost_estimator'' cost_manager") (auto split: if_splits)
  ultimately show ?thesis using run one rem by blast
qed

section \<open>The example registries, evaluated\<close>

lemma chain_manager_eval:
  "chain_manager = (new_manager ''session'' 3 0)
       \<lparr> tool_map := [(''a'', ready_entry ''a'' stub_tool),
                       (''eraser'', ready_entry ''eraser'' eraser_tool),
                       (''probe'', ready_entry ''probe'' probe_tool)],
         total_added := 3 \<rparr>"
  by (simp add: chain_manager_def add_tool_def new_manager_def new_entry_def cost_args_def
      ready_entry_def stub_tool_def eraser_tool_def probe_tool_def or_else_def)

lemma boom_manager_eval:
  "boom_manager = (new_manager ''session'' 2 0)
       \<lparr> tool_map := [(''a'', ready_entry ''a'' (raising_tool ''boom''))], total_added := 1 \<rparr>"
  by (simp add: boom_manager_def add_tool_def new_manager_def new_entry_def cost_args_def
      ready_entry_def raising_tool_def or_else_def)

lemma mixed_manager_eval:
  "mixed_manager = (new_manager ''session'' 2 0)
       \<lparr> tool_map := [(''a'', ready_entry ''a'' (raising_tool ''boom'')),
                       (''b'', ready_entry ''b'' stub_tool)],
         total_added := 2 \<rparr>"
  by (simp add: mixed_manager_def boom_manager_eval add_tool_def new_manager_def new_entry_def
      cost_args_def ready_entry_def stub_tool_def or_else_def)

lemmas evaluation =
  execute_multiple_tools_def execute_tool_def begin_call_def check_ready_def finish_call_def
  new_manager_def ready_entry_def stub_tool_def eraser_tool_def probe_tool_def raising_tool_def
  cancelled_tool_def is_ready_def update_execution_stats_def add_to_execution_history_def
  record_error_def stamped_def put_entry_def get_default_def empty_batch_def Let_def
  start_world_def new_object_def set_item_def dict_of_def inject_def succeeded_def result_dict_def

section \<open>Executing one tool\<close>

lemma execute_tool_missing:
  "map_of (tool_map s) tid = None \<Longrightarrow>
     execute_tool str_of tid ctx w now s = (Inr (Failure (''Tool '' @ tid @ '' not found'') tid), w, now, s)"
  by (simp add: execute_tool_def begin_call_def)

lemma execute_tool_ready:
  assumes "map_of (tool_map s) tid = Some e" and "status e = READY"
  shows "execute_tool str_of tid ctx w now s
           = finish_call str_of tid ctx now w now (put_entry tid (e\<lparr> status := EXECUTING \<rparr>) s)"
  using assms by (simp add: execute_tool_def begin_call_def check_ready_def is_ready_def)

lemma put_entry_twice [simp]: "put_entry tid e (put_entry tid e' s) = put_entry tid e s"
  by (simp add: put_entry_def)

lemma put_entry_total_executions [simp]:
  "(put_entry tid e s)\<lparr> total_executions := n \<rparr> = put_entry tid e (s\<lparr> total_executions := n \<rparr>)"
  by (simp add: put_entry_def)

lemma execute_tool_ready_returns:
  assumes "map_of (tool_map s) tid = Some e" and "status e = READY"
    and "execute (tool_instance e) ctx w = ExecReturns res w1 dt"
    and "execution_count e \<noteq> - 1"
  shows "execute_tool str_of tid ctx w now s =
           (Inr (Returned res), w1, now + dt,
            put_entry tid
              ((add_to_execution_history (now + dt)
                  [(''query'', get_default (dict_of w1 ctx) ''query'' (PStr [])),
                   (''result'', PStr (take 200 (replace_newlines (str_of w1 res)))),
                   (''success'', get_default (dict_of w1 res) ''success'' (PBool False)),
                   (''execution_time'', PFloat dt)]
                  (e\<lparr> status := EXECUTING, last_executed := Some (now + dt),
                      execution_count := execution_count e + 1,
                      total_execution_time := total_execution_time e + dt,
                      average_execution_time :=
                        (total_execution_time e + dt) / real_of_int (execution_count e + 1) \<rparr>))
                 \<lparr> status := READY \<rparr>)
              (s\<lparr> total_executions := total_executions s + 1 \<rparr>))"
proof -
  have stats: "update_execution_stats (now + dt) (now + dt - now) (e\<lparr> status := EXECUTING \<rparr>)
      = (None, e\<lparr> status := EXECUTING, last_executed := Some (now + dt),
                  execution_count := execution_count e + 1,
                  total_execution_time := total_execution_time e + dt,
                  average_execution_time :=
                    (total_execution_time e + dt) / real_of_int (execution_count e + 1) \<rparr>)"
    using update_execution_stats_ok [of "e\<lparr> status := EXECUTING \<rparr>" "now + dt" "now + dt - now"]
      assms(4) by simp
  show ?thesis
    unfolding execute_tool_ready [OF assms(1,2)] finish_call_def
    using assms(3) stats by (simp add: Let_def)
qed

lemma execute_tool_ready_raises:
  assumes "map_of (tool_map s) tid = Some e" and "status e = READY"
    and "execute (tool_instance e) ctx w = ExecRaises msg w1 dt"
  shows "execute_tool str_of tid ctx w now s =
           (Inr (Failure msg tid), w1, now + dt,
            put_entry tid ((record_error (now + dt) msg (e\<lparr> status := EXECUTING \<rparr>))\<lparr> status := READY \<rparr>) s)"
  unfolding execute_tool_ready [OF assms(1,2)] finish_call_def
  using assms(3) by simp

lemma execute_tool_ready_aborts:
  assumes "map_of (tool_map s) tid = Some e" and "status e = READY"
    and "execute (tool_instance e) ctx w = ExecAborts exc w1 dt"
  shows "execute_tool str_of tid ctx w now s =
           (Inl exc, w1, now + dt, put_entry tid (e\<lparr> status := EXECUTING \<rparr>) s)"
  unfolding execute_tool_ready [OF assms(1,2)] finish_call_def
  using assms(3) by simp

lemma silent_manager_eval:
  "silent_manager = (new_manager ''session'' 2 0)
       \<lparr> tool_map := [(''silent'', ready_entry ''silent'' (raising_tool []))], total_added := 1 \<rparr>"
  by (simp add: silent_manager_def add_tool_def new_manager_def new_entry_def cost_args_def
      ready_entry_def raising_tool_def or_else_def)

lemma cancelled_manager_eval:
  "cancelled_manager = (new_manager ''session'' 2 0)
       \<lparr> tool_map := [(''c'', ready_entry ''c'' cancelled_tool)], total_added := 1 \<rparr>"
  by (simp add: cancelled_manager_def add_tool_def new_manager_def new_entry_def cost_args_def
      ready_entry_def cancelled_tool_def or_else_def)

text \<open>
  Claim C1. In a registry reached from a fresh one, executing a READY tool whose
  \<^verbatim>\<open>execute\<close> returns a result (with \<^verbatim>\<open>success\<close> true or not) returns that result
  unchanged, increments the entry's \<^verbatim>\<open>execution_count\<close> by exactly 1, adds the duration
  to \<^verbatim>\<open>total_execution_time\<close>, sets \<^verbatim>\<open>average_execution_time\<close> to
  \<^verbatim>\<open>total_execution_time / execution_count\<close>, increments the registry's
  \<^verbatim>\<open>total_executions\<close> by 1 and leaves the entry READY. The division cannot fail there:
  the count of an entry of the registry is never negative (\<open>reachable_count_nonneg\<close>).
\<close>

theorem execute_tool_success:
  assumes "s = snd (run_calls str_of calls (w0, new_manager sid cap t0))"
    and "get_tool s tid = Some e" and "status e = READY"
    and "execute (tool_instance e) ctx w = ExecReturns res w1 dt"
  shows "\<exists>s1 e1. execute_tool str_of tid ctx w now s = (Inr (Returned res), w1, now + dt, s1)
      \<and> get_tool s1 tid = Some e1
      \<and> execution_count e1 = execution_count e + 1
      \<and> total_execution_time e1 = total_execution_time e + dt
      \<and> average_execution_time e1 = total_execution_time e1 / real_of_int (execution_count e1)
      \<and> total_executions s1 = total_executions s + 1
      \<and> status e1 = READY"
proof -
  have nonneg: "0 \<le> execution_count e"
    using assms(1,2) by (rule reachable_count_nonneg)
  then have ok: "execution_count e \<noteq> - 1" by simp
  have lookup: "map_of (tool_map s) tid = Some e"
    using assms(2) by (simp add: get_tool_def)
  define e5 where "e5 = (add_to_execution_history (now + dt)
                  [(''query'', get_default (dict_of w1 ctx) ''query'' (PStr [])),
                   (''result'', PStr (take 200 (replace_newlines (str_of w1 res)))),
                   (''success'', get_default (dict_of w1 res) ''success'' (PBool False)),
                   (''execution_time'', PFloat dt)]
                  (e\<lparr> status := EXECUTING, last_executed := Some (now + dt),
                      execution_count := execution_count e + 1,
                      total_execution_time := total_execution_time e + dt,
                      average_execution_time :=
                        (total_execution_time e + dt) / real_of_int (execution_count e + 1) \<rparr>))
                 \<lparr> status := READY \<rparr>"
  define s1 where "s1 = put_entry tid e5 (s\<lparr> total_executions := total_executions s + 1 \<rparr>)"
  have run: "execute_tool str_of tid ctx w now s = (Inr (Returned res), w1, now + dt, s1)"
    using execute_tool_ready_returns [OF lookup assms(3,4) ok, of str_of now]
    by (simp add: s1_def e5_def)
  have fields: "execution_count e5 = execution_count e + 1"
    "total_execution_time e5 = total_execution_time e + dt"
    "average_execution_time e5 = total_execution_time e5 / real_of_int (execution_count e5)"
    "status e5 = READY"
    by (simp_all add: e5_def add_to_execution_history_def Let_def)
  have "get_tool s1 tid = Some e5" and "total_executions s1 = total_executions s + 1"
    by (simp_all add: s1_def get_tool_def)
  then show ?thesis using run fields by blast
qed

theorem execute_tool_success_witness:
  "cost_manager = snd (run_calls str_stub [AddTool 0 ''cost_estimator'' stub_tool cost_args]
                         (start_world, new_manager ''session'' 2 0))
   \<and> get_tool cost_manager ''cost_estimator'' = Some cost_entry
   \<and> status cost_entry = READY
   \<and> execute (tool_instance cost_entry) 0 start_world
        = ExecReturns 1
            (snd (new_object [(''success'', PBool True), (''value'', PInt 42)] start_world)) 1
   \<and> (\<exists>s1 e1. execute_tool str_stub ''cost_estimator'' 0 start_world 5 cost_manager
          = (Inr (Returned 1),
             snd (new_object [(''success'', PBool True), (''value'', PInt 42)] start_world), 6, s1)
        \<and> get_tool s1 ''cost_estimator'' = Some e1 \<and> execution_count e1 = 1
        \<and> average_execution_time e1 = 1 \<and> total_executions s1 = 1 \<and> status e1 = READY)"
proof -
  have run: "cost_manager = snd (run_calls str_stub [AddTool 0 ''cost_estimator'' stub_tool cost_args]
      (start_world, new_manager ''session'' 2 0))"
    by (simp add: cost_manager_def)
  have get: "get_tool cost_manager ''cost_estimator'' = Some cost_entry"
    by (simp add: cost_manager_eval get_tool_def)
  have ready: "status cost_entry = READY"
    by (simp add: cost_entry_def ready_entry_def)
  have ex: "execute (tool_instance cost_entry) 0 start_world
        = ExecReturns 1
            (snd (new_object [(''success'', PBool True), (''value'', PInt 42)] start_world)) 1"
    by (simp add: cost_entry_def ready_entry_def stub_tool_def new_object_def start_world_def)
  have zero: "execution_count cost_entry = 0" "total_execution_time cost_entry = 0"
    "total_executions cost_manager = 0"
    by (simp_all add: cost_entry_def ready_entry_def cost_manager_eval new_manager_def)
  obtain s1 e1 where r:
    "execute_tool str_stub ''cost_estimator'' 0 start_world 5 cost_manager
          = (Inr (Returned 1),
             snd (new_object [(''success'', PBool True), (''value'', PInt 42)] start_world),
             5 + 1, s1)"
    "get_tool s1 ''cost_estimator'' = Some e1"
    "execution_count e1 = execution_count cost_entry + 1"
    "total_execution_time e1 = total_execution_time cost_entry + 1"
    "average_execution_time e1 = total_execution_time e1 / real_of_int (execution_count e1)"
    "total_executions s1 = total_executions cost_manager + 1"
    "status e1 = READY"
    using execute_tool_success [OF run get ready ex, of 5] by blast
  have "execution_count e1 = 1" "average_execution_time e1 = 1" "total_executions s1 = 1"
    using r zero by simp_all
  then show ?thesis using run get ready ex r(1,2,7) by auto
qed

text \<open>
  Claim C2, as the code has it. Executing a READY tool whose \<^verbatim>\<open>execute\<close> raises an
  exception that is an instance of \<^verbatim>\<open>Exception\<close> leaves the entry READY, increments
  \<^verbatim>\<open>error_count\<close> by 1, changes neither \<^verbatim>\<open>execution_count\<close> nor \<^verbatim>\<open>total_executions\<close>, and
  returns a result with \<^verbatim>\<open>success\<close> false, \<^verbatim>\<open>tool\<close> equal to the id and \<^verbatim>\<open>error\<close> equal
  to \<^verbatim>\<open>str(e)\<close>, the message of the exception, whatever it is.
\<close>

theorem execute_tool_failure:
  assumes "get_tool s tid = Some e" and "status e = READY"
    and "execute (tool_instance e) ctx w = ExecRaises msg w1 dt"
  shows "\<exists>r s1 e1. execute_tool str_of tid ctx w now s = (Inr r, w1, now + dt, s1)
      \<and> map_of (result_dict w1 r) ''success'' = Some (PBool False)
      \<and> map_of (result_dict w1 r) ''error'' = Some (PStr msg)
      \<and> map_of (result_dict w1 r) ''tool'' = Some (PStr tid)
      \<and> get_tool s1 tid = Some e1
      \<and> status e1 = READY
      \<and> error_count e1 = error_count e + 1
      \<and> last_error e1 = Some msg
      \<and> execution_count e1 = execution_count e
      \<and> total_executions s1 = total_executions s"
proof -
  have lookup: "map_of (tool_map s) tid = Some e"
    using assms(1) by (simp add: get_tool_def)
  define e2 where "e2 = (record_error (now + dt) msg (e\<lparr> status := EXECUTING \<rparr>))\<lparr> status := READY \<rparr>"
  have run: "execute_tool str_of tid ctx w now s
      = (Inr (Failure msg tid), w1, now + dt, put_entry tid e2 s)"
    using execute_tool_ready_raises [OF lookup assms(2,3), of str_of now] by (simp add: e2_def)
  have res: "map_of (result_dict w1 (Failure msg tid)) ''success'' = Some (PBool False)"
    "map_of (result_dict w1 (Failure msg tid)) ''error'' = Some (PStr msg)"
    "map_of (result_dict w1 (Failure msg tid)) ''tool'' = Some (PStr tid)"
    by (simp_all add: result_dict_def)
  have fields: "status e2 = READY" "error_count e2 = error_count e + 1" "last_error e2 = Some msg"
    "execution_count e2 = execution_count e"
    by (simp_all add: e2_def record_error_def add_to_execution_history_def Let_def)
  have "get_tool (put_entry tid e2 s) tid = Some e2"
    and "total_executions (put_entry tid e2 s) = total_executions s"
    by (simp_all add: get_tool_def)
  then show ?thesis using run res fields by blast
qed

theorem execute_tool_failure_witness:
  "(\<exists>e. get_tool boom_manager ''a'' = Some e \<and> status e = READY
       \<and> execute (tool_instance e) 0 start_world = ExecRaises ''boom'' start_world 1)
   \<and> (\<exists>r s1 e1. execute_tool str_stub ''a'' 0 start_world 1 boom_manager = (Inr r, start_world, 2, s1)
         \<and> map_of (result_dict start_world r) ''success'' = Some (PBool False)
         \<and> map_of (result_dict start_world r) ''error'' = Some (PStr ''boom'')
         \<and> map_of (result_dict start_world r) ''tool'' = Some (PStr ''a'')
         \<and> get_tool s1 ''a'' = Some e1 \<and> status e1 = READY
         \<and> error_count e1 = 1 \<and> execution_count e1 = 0 \<and> total_executions s1 = 0)"
proof -
  let ?e = "ready_entry ''a'' (raising_tool ''boom'')"
  have ev: "boom_manager = (new_manager ''session'' 2 0)\<lparr> tool_map := [(''a'', ?e)], total_added := 1 \<rparr>"
    by (simp add: boom_manager_def add_tool_def new_manager_def new_entry_def cost_args_def
        ready_entry_def raising_tool_def or_else_def)
  have get: "get_tool boom_manager ''a'' = Some ?e"
    by (simp add: ev get_tool_def)
  have ready: "status ?e = READY"
    by (simp add: ready_entry_def)
  have ex: "execute (tool_instance ?e) 0 start_world = ExecRaises ''boom'' start_world 1"
    by (simp add: ready_entry_def raising_tool_def)
  have zero: "error_count ?e = 0" "execution_count ?e = 0" "total_executions boom_manager = 0"
    by (simp_all add: ready_entry_def ev new_manager_def)
  obtain r s1 e1 where r:
    "execute_tool str_stub ''a'' 0 start_world 1 boom_manager = (Inr r, start_world, 1 + 1, s1)"
    "map_of (result_dict start_world r) ''success'' = Some (PBool False)"
    "map_of (result_dict start_world r) ''error'' = Some (PStr ''boom'')"
    "map_of (result_dict start_world r) ''tool'' = Some (PStr ''a'')"
    "get_tool s1 ''a'' = Some e1" "status e1 = READY"
    "error_count e1 = error_count ?e + 1" "execution_count e1 = execution_count ?e"
    "total_executions s1 = total_executions boom_manager"
    using execute_tool_failure [OF get ready ex, of str_stub 1] by blast
  have "error_count e1 = 1" "execution_count e1 = 0" "total_executions s1 = 0"
    using r zero by simp_all
  then show ?thesis using get ready ex r(1-6) by auto
qed

text \<open>
  Claim C2 as stated fails twice. The error string need not be non-empty: an exception
  raised without a message (\<^verbatim>\<open>raise RuntimeError()\<close>) has the empty string as its
  \<^verbatim>\<open>str\<close>, and that is what the result carries. And not every exception is caught: a
  READY tool whose \<^verbatim>\<open>execute\<close> ends with \<^verbatim>\<open>asyncio.CancelledError\<close> makes
  \<^verbatim>\<open>execute_tool\<close> end with that exception instead of a result, and the entry is left
  EXECUTING, with no error recorded.
\<close>

theorem execute_tool_raise_not_isolated:
  "(\<exists>e. get_tool silent_manager ''silent'' = Some e \<and> status e = READY
       \<and> execute (tool_instance e) 0 start_world = ExecRaises [] start_world 1)
   \<and> (\<exists>r s1. execute_tool str_stub ''silent'' 0 start_world 1 silent_manager = (Inr r, start_world, 2, s1)
         \<and> map_of (result_dict start_world r) ''error'' = Some (PStr []))
   \<and> (\<exists>e. get_tool cancelled_manager ''c'' = Some e \<and> status e = READY
       \<and> execute (tool_instance e) 0 start_world = ExecAborts CancelledError start_world 1)
   \<and> (\<exists>s1 e1. execute_tool str_stub ''c'' 0 start_world 1 cancelled_manager
                  = (Inl CancelledError, start_world, 2, s1)
         \<and> get_tool s1 ''c'' = Some e1 \<and> status e1 = EXECUTING
         \<and> error_count e1 = 0 \<and> last_error e1 = None)"
proof -
  let ?e = "ready_entry ''silent'' (raising_tool [])"
  have get: "get_tool silent_manager ''silent'' = Some ?e"
    by (simp add: silent_manager_eval get_tool_def)
  have lookup: "map_of (tool_map silent_manager) ''silent'' = Some ?e"
    using get by (simp add: get_tool_def)
  have ready: "status ?e = READY"
    by (simp add: ready_entry_def)
  have ex: "execute (tool_instance ?e) 0 start_world = ExecRaises [] start_world 1"
    by (simp add: ready_entry_def raising_tool_def)
  have a: "\<exists>r s1. execute_tool str_stub ''silent'' 0 start_world 1 silent_manager = (Inr r, start_world, 2, s1)
         \<and> map_of (result_dict start_world r) ''error'' = Some (PStr [])"
    using execute_tool_ready_raises [OF lookup ready ex, of str_stub 1] by (simp add: result_dict_def)
  let ?c = "ready_entry ''c'' cancelled_tool"
  have getc: "get_tool cancelled_manager ''c'' = Some ?c"
    by (simp add: cancelled_manager_eval get_tool_def)
  have lookupc: "map_of (tool_map cancelled_manager) ''c'' = Some ?c"
    using getc by (simp add: get_tool_def)
  have readyc: "status ?c = READY"
    by (simp add: ready_entry_def)
  have exc: "execute (tool_instance ?c) 0 start_world = ExecAborts CancelledError start_world 1"
    by (simp add: ready_entry_def cancelled_tool_def)
  have b: "\<exists>s1 e1. execute_tool str_stub ''c'' 0 start_world 1 cancelled_manager
                  = (Inl CancelledError, start_world, 2, s1)
         \<and> get_tool s1 ''c'' = Some e1 \<and> status e1 = EXECUTING
         \<and> error_count e1 = 0 \<and> last_error e1 = None"
    using execute_tool_ready_aborts [OF lookupc readyc exc, of str_stub 1]
    by (simp add: get_tool_def ready_entry_def)
  show ?thesis using get ready ex a getc readyc exc b by blast
qed

section \<open>Waiting for initializations\<close>

lemma map_of_fold_delete:
  "map_of (fold (\<lambda>h. AList.delete (f h)) hs al) k = (if k \<in> f ` set hs then None else map_of al k)"
  by (induction hs arbitrary: al) (auto simp: delete_conv')


lemma initialize_tool_tasks:
  "initialization_tasks (snd (initialize_tool now tid s)) = AList.delete tid (initialization_tasks s)"
  "live_tasks (snd (initialize_tool now tid s)) = live_tasks s"
  by (simp_all add: initialize_tool_def split: option.splits prod.splits)

lemma finish_task_tasks:
  "initialization_tasks (snd (finish_task now n tid s)) = AList.delete tid (initialization_tasks s)"
  "live_tasks (snd (finish_task now n tid s)) = AList.delete n (live_tasks s)"
  using initialize_tool_tasks [of now tid s]
  by (cases "initialize_tool now tid s"; simp add: finish_task_def)+

lemma timed_out_tasks:
  "initialization_tasks (timed_out tid n s) = AList.delete tid (initialization_tasks s)"
  "live_tasks (timed_out tid n s) = AList.delete n (live_tasks s)"
  "tool_map (timed_out tid n s) = tool_map s"
  by (simp_all add: timed_out_def cancel_task_def)

lemma finish_tasks_tasks:
  "finish_tasks now hs s = (None, s1) \<Longrightarrow>
     initialization_tasks s1 = fold (\<lambda>h. AList.delete (fst h)) hs (initialization_tasks s)
     \<and> live_tasks s1 = fold (\<lambda>h. AList.delete (snd h)) hs (live_tasks s)"
proof (induction hs arbitrary: s)
  case Nil
  then show ?case by simp
next
  case (Cons h hs)
  obtain tid n where h: "h = (tid, n)" by (cases h)
  obtain exc s' where f: "finish_task now n tid s = (exc, s')"
    by (cases "finish_task now n tid s")
  have none: "exc = None" and rest: "finish_tasks now hs s' = (None, s1)"
    using Cons.prems h f by (cases exc; simp)+
  show ?case
    using Cons.IH [OF rest] finish_task_tasks [of now n tid s] f h by simp
qed








section \<open>Executing several tools in parallel\<close>

text \<open>The contexts of the calls of a parallel batch: each call has a dictionary of its
  own, newly allocated, with the items of the caller's context; the objects that were
  there before are untouched. The items are the same values, so an object nested in the
  caller's context is the same object in every copy.\<close>

lemma make_tasks_copies:
  assumes "make_tasks tids ctx w = (ts, w1)" and "ctx < allocated w"
  shows "map task_tool ts = tids"
    and "map task_context ts = [allocated w ..< allocated w + length tids]"
    and "allocated w1 = allocated w + length tids"
    and "a < allocated w \<Longrightarrow> objects w1 a = objects w a"
    and "t \<in> set ts \<Longrightarrow> objects w1 (task_context t) = dict_of w ctx"
proof -
  have "map task_tool ts = tids
      \<and> map task_context ts = [allocated w ..< allocated w + length tids]
      \<and> allocated w1 = allocated w + length tids
      \<and> (\<forall>a < allocated w. objects w1 a = objects w a)
      \<and> (\<forall>t \<in> set ts. objects w1 (task_context t) = dict_of w ctx)"
    using assms
  proof (induction tids arbitrary: w ts w1)
    case Nil
    then show ?case by simp
  next
    case (Cons tid tids)
    let ?w' = "w\<lparr> objects := (objects w)(allocated w := dict_of w ctx),
                  allocated := Suc (allocated w) \<rparr>"
    obtain ts' w2 where rest: "make_tasks tids ctx ?w' = (ts', w2)"
      by (cases "make_tasks tids ctx ?w'")
    have copy: "copy_dict ctx w = (allocated w, ?w')"
      by (simp add: copy_dict_def new_object_def)
    have w': "allocated ?w' = Suc (allocated w)"
      "objects ?w' = (objects w)(allocated w := dict_of w ctx)"
      by simp_all
    have same: "dict_of ?w' ctx = dict_of w ctx"
      using Cons.prems(2) by (simp add: dict_of_def)
    have ts: "ts = \<lparr> task_tool = tid, task_context = allocated w, task_state = Waiting \<rparr> # ts'"
      and w1: "w1 = w2"
      using Cons.prems(1) copy rest by simp_all
    have "ctx < allocated ?w'" using Cons.prems(2) w' by simp
    note ih = Cons.IH [OF rest this]
    have head: "objects w1 (allocated w) = dict_of w ctx"
      using ih w' w1 by simp
    have upt: "[allocated w ..< allocated w + length (tid # tids)]
        = allocated w # [Suc (allocated w) ..< Suc (allocated w) + length tids]"
      by (simp add: upt_rec)
    show ?case
      using ih head same unfolding ts w1 upt w' by auto
  qed
  then show "map task_tool ts = tids"
    and "map task_context ts = [allocated w ..< allocated w + length tids]"
    and "allocated w1 = allocated w + length tids"
    and "a < allocated w \<Longrightarrow> objects w1 a = objects w a"
    and "t \<in> set ts \<Longrightarrow> objects w1 (task_context t) = dict_of w ctx"
    by blast+
qed

lemma boom_executing_eval:
  "boom_executing =
     \<lparr> tasks = [\<lparr> task_tool = ''a'', task_context = 1, task_state = Executing 1 \<rparr>],
       heap = snd (copy_dict 0 start_world), clock = 1,
       registry = put_entry ''a'' ((ready_entry ''a'' (raising_tool ''boom''))\<lparr> status := EXECUTING \<rparr>)
                    boom_manager,
       stopped = None \<rparr>"
  by (simp add: boom_executing_def boom_waiting_def advance_def boom_manager_eval begin_call_def
      check_ready_def is_ready_def after_check_def set_state_def ready_entry_def Let_def)

lemma boom_done_eval:
  "boom_done =
     \<lparr> tasks = [\<lparr> task_tool = ''a'', task_context = 1,
                  task_state = Done (Inr (Failure ''boom'' ''a'')) \<rparr>],
       heap = snd (copy_dict 0 start_world), clock = 2,
       registry = put_entry ''a''
                    ((record_error 2 ''boom''
                        ((ready_entry ''a'' (raising_tool ''boom''))\<lparr> status := EXECUTING \<rparr>))
                       \<lparr> status := READY \<rparr>)
                    boom_manager,
       stopped = None \<rparr>"
  by (simp add: boom_done_def boom_executing_eval advance_def finish_call_def end_task_def
      set_state_def ready_entry_def raising_tool_def Let_def)

lemma boom_advance:
  "advance str_stub 0 boom_waiting = boom_executing"
  "advance str_stub 0 boom_executing = boom_done"
  "advance str_stub 0 boom_done = boom_done"
  "advance str_stub (Suc i) boom_waiting = boom_waiting"
  "advance str_stub (Suc i) boom_executing = boom_executing"
  "advance str_stub (Suc i) boom_done = boom_done"
  by (simp_all add: boom_executing_def [symmetric] boom_done_def [symmetric])
    (simp_all add: boom_waiting_def boom_executing_eval boom_done_eval advance_def)

lemma boom_background:
  "apply_event str_stub (Background n) boom_waiting = boom_waiting"
  "apply_event str_stub (Background n) boom_executing = boom_executing"
  "apply_event str_stub (Background n) boom_done = boom_done"
  by (simp_all add: boom_waiting_def boom_executing_eval boom_done_eval initialization_task_def
      boom_manager_eval new_manager_def)

lemma boom_event:
  assumes "g = boom_waiting \<or> g = boom_executing \<or> g = boom_done"
  shows "apply_event str_stub ev g = boom_waiting \<or> apply_event str_stub ev g = boom_executing
           \<or> apply_event str_stub ev g = boom_done"
proof (cases ev)
  case (Advance i)
  then show ?thesis using assms boom_advance by (cases i) auto
next
  case (Background n)
  then show ?thesis using assms boom_background by auto
qed

lemma boom_schedule:
  assumes "g = boom_waiting \<or> g = boom_executing \<or> g = boom_done"
  shows "fold (apply_event str_stub) (schedule @ run_to_end 1) g = boom_done"
  using assms
proof (induction schedule arbitrary: g)
  case Nil
  have "run_to_end 1 = [Advance 0, Advance 0, Advance 0]"
    by (simp add: run_to_end_def)
  then show ?case using Nil boom_advance(1-3) by auto
next
  case (Cons ev schedule)
  show ?case
    using Cons.IH [OF boom_event [OF Cons.prems, of ev]] by simp
qed

lemma boom_run_parallel:
  "run_parallel str_stub schedule [''a''] 0 start_world 1 boom_manager = boom_done"
proof -
  have mk: "make_tasks [''a''] 0 start_world = (tasks boom_waiting, heap boom_waiting)"
    by (simp add: boom_waiting_def copy_dict_def new_object_def start_world_def)
  have g: "\<lparr> tasks = tasks boom_waiting, heap = heap boom_waiting, clock = 1,
             registry = boom_manager, stopped = None \<rparr> = boom_waiting"
    by (simp add: boom_waiting_def)
  have len: "length (tasks boom_waiting) = 1"
    by (simp add: boom_waiting_def)
  have "run_parallel str_stub schedule [''a''] 0 start_world 1 boom_manager
      = fold (apply_event str_stub) (schedule @ run_to_end 1) boom_waiting"
    by (simp only: run_parallel_def mk prod.case g len)
  then show ?thesis
    using boom_schedule [of boom_waiting schedule] by simp
qed

text \<open>
  Claim C5. In the parallel branch every call of \<^verbatim>\<open>execute_tool\<close> is handed its own
  shallow copy of the caller's context (\<open>make_tasks_copies\<close>). The aggregate flag, however, is cleared only
  for an element of the gathered list that is an instance of \<^verbatim>\<open>Exception\<close>, and
  \<^verbatim>\<open>execute_tool\<close> turns every such failure of a tool into a returned failure
  dictionary. So a batch whose only tool raises \<^verbatim>\<open>RuntimeError("boom")\<close> reports that
  tool's failure and still has \<^verbatim>\<open>success\<close> true in parallel mode, whatever the
  schedule, while the sequential branch, which tests the \<^verbatim>\<open>success\<close> field of each
  result, reports false for the same batch.
\<close>

theorem parallel_success_flag_ignores_failures:
  "(case execute_multiple_tools str_stub schedule [''a''] 0 False start_world 1 boom_manager of
      (r, w1, now1, s1) \<Rightarrow>
        (\<exists>results. r = Inr results
           \<and> tools_executed results = [''a'']
           \<and> map_of (tool_results results) ''a'' = Some (Inr (Failure ''boom'' ''a''))
           \<and> result_dict w1 (Failure ''boom'' ''a'')
               = [(''success'', PBool False), (''error'', PStr ''boom''), (''tool'', PStr ''a'')]
           \<and> success results))
   \<and> (case execute_multiple_tools str_stub schedule [''a''] 0 True start_world 1 boom_manager of
      (r, w1, now1, s1) \<Rightarrow>
        (\<exists>results. r = Inr results
           \<and> tools_executed results = [''a'']
           \<and> map_of (tool_results results) ''a'' = Some (Inr (Failure ''boom'' ''a''))
           \<and> \<not> success results))"
proof -
  have par: "run_parallel str_stub schedule [''a''] 0 start_world 1 boom_manager = boom_done"
    by (rule boom_run_parallel)
  have ended: "stopped boom_done = None"
    "gathered_results (tasks boom_done) = [(''a'', GatheredResult (Failure ''boom'' ''a''))]"
    by (simp_all add: boom_done_eval gathered_results_def)
  have first: "case execute_multiple_tools str_stub schedule [''a''] 0 False start_world 1 boom_manager of
      (r, w1, now1, s1) \<Rightarrow>
        (\<exists>results. r = Inr results
           \<and> tools_executed results = [''a'']
           \<and> map_of (tool_results results) ''a'' = Some (Inr (Failure ''boom'' ''a''))
           \<and> result_dict w1 (Failure ''boom'' ''a'')
               = [(''success'', PBool False), (''error'', PStr ''boom''), (''tool'', PStr ''a'')]
           \<and> success results)"
    by (simp add: execute_multiple_tools_def par ended empty_batch_def result_dict_def Let_def)
  have second: "case execute_multiple_tools str_stub schedule [''a''] 0 True start_world 1 boom_manager of
      (r, w1, now1, s1) \<Rightarrow>
        (\<exists>results. r = Inr results
           \<and> tools_executed results = [''a'']
           \<and> map_of (tool_results results) ''a'' = Some (Inr (Failure ''boom'' ''a''))
           \<and> \<not> success results)"
    by (simp add: boom_manager_eval evaluation)
  show ?thesis using first second by blast
qed

section \<open>Executing several tools in sequence\<close>

lemma succeeded_Failure [simp]: "\<not> succeeded w (Failure msg tid)"
  by (simp add: succeeded_def result_dict_def)

lemma succeeded_Returned:
  "succeeded w (Returned a) = truthy w (map_of (dict_of w a) ''success'')"
  by (simp add: succeeded_def result_dict_def)

lemma recorded_eq:
  "recorded tid r w results =
     (if succeeded w r
      then results\<lparr> tools_executed := tools_executed results @ [tid],
                    tool_results := AList.update tid (Inr r) (tool_results results) \<rparr>
      else results\<lparr> tools_executed := tools_executed results @ [tid],
                    tool_results := AList.update tid (Inr r) (tool_results results),
                    success := False \<rparr>)"
  by (cases results) (simp add: recorded_def)

lemma run_sequential_step:
  assumes "execute_tool str_of tid ctx w now s = (Inr r, w1, now1, s1)"
  shows "run_sequential str_of (tid # tids) ctx results w now s
           = run_sequential str_of tids ctx (recorded tid r w1 results) (inject tid ctx r w1) now1 s1"
proof (cases r)
  case (Returned a)
  then show ?thesis
    using assms by (simp add: recorded_eq inject_def succeeded_Returned Let_def)
next
  case (Failure msg t)
  then show ?thesis
    using assms by (simp add: recorded_eq inject_def Let_def)
qed

lemma run_sequential_abort:
  assumes "execute_tool str_of tid ctx w now s = (Inl exc, w1, now1, s1)"
  shows "run_sequential str_of (tid # tids) ctx results w now s = (Inl exc, w1, now1, s1)"
  using assms by simp

lemma run_sequential_append:
  "run_sequential str_of (xs @ ys) ctx results w now s =
     (case run_sequential str_of xs ctx results w now s of
        (Inl exc, w1, now1, s1) \<Rightarrow> (Inl exc, w1, now1, s1)
      | (Inr results1, w1, now1, s1) \<Rightarrow> run_sequential str_of ys ctx results1 w1 now1 s1)"
proof (induction xs arbitrary: results w now s)
  case Nil
  show ?case by simp
next
  case (Cons x xs)
  obtain r w1 now1 s1 where ex: "execute_tool str_of x ctx w now s = (r, w1, now1, s1)"
    by (metis prod_cases4)
  show ?case
  proof (cases r)
    case (Inl exc)
    then show ?thesis using ex by simp
  next
    case (Inr x2)
    show ?thesis
      unfolding append_Cons run_sequential_step [OF ex [unfolded Inr]] by (rule Cons.IH)
  qed
qed

lemma run_sequential_recorded:
  assumes "run_sequential str_of tids ctx results w now s = (Inr results1, w1, now1, s1)"
  shows "tools_executed results1 = tools_executed results @ tids"
    and "tid \<notin> set tids \<Longrightarrow> map_of (tool_results results1) tid = map_of (tool_results results) tid"
    and "tid \<in> set tids \<or> map_of (tool_results results) tid \<noteq> None \<Longrightarrow>
           map_of (tool_results results1) tid \<noteq> None"
    and "\<not> success results \<Longrightarrow> \<not> success results1"
proof -
  have "tools_executed results1 = tools_executed results @ tids
      \<and> (tid \<notin> set tids \<longrightarrow> map_of (tool_results results1) tid = map_of (tool_results results) tid)
      \<and> (tid \<in> set tids \<or> map_of (tool_results results) tid \<noteq> None \<longrightarrow>
           map_of (tool_results results1) tid \<noteq> None)
      \<and> (\<not> success results \<longrightarrow> \<not> success results1)"
    using assms
  proof (induction tids arbitrary: results w now s)
    case Nil
    then show ?case by simp
  next
    case (Cons x tids)
    obtain r w' now' s' where ex: "execute_tool str_of x ctx w now s = (r, w', now', s')"
      by (metis prod_cases4)
    show ?case
    proof (cases r)
      case (Inl exc)
      then show ?thesis using ex Cons.prems by simp
    next
      case (Inr x2)
      have "run_sequential str_of tids ctx (recorded x x2 w' results) (inject x ctx x2 w') now' s'
          = (Inr results1, w1, now1, s1)"
        using run_sequential_step [OF ex [unfolded Inr], of tids results] Cons.prems by simp
      from Cons.IH [OF this] show ?thesis
        by (auto simp: recorded_def update_conv')
    qed
  qed
  then show "tools_executed results1 = tools_executed results @ tids"
    and "tid \<notin> set tids \<Longrightarrow> map_of (tool_results results1) tid = map_of (tool_results results) tid"
    and "tid \<in> set tids \<or> map_of (tool_results results) tid \<noteq> None \<Longrightarrow>
           map_of (tool_results results1) tid \<noteq> None"
    and "\<not> success results \<Longrightarrow> \<not> success results1"
    by blast+
qed

lemma dict_of_set_item:
  "dict_of (set_item a k v w) b = (if b = a then AList.update k v (dict_of w a) else dict_of w b)"
  by (simp add: set_item_def dict_of_def)

lemma inject_other_key:
  assumes "tid \<noteq> a"
  shows "map_of (dict_of (inject tid ctx r w) ctx) (a @ ''_result'') = map_of (dict_of w ctx) (a @ ''_result'')"
  using assms by (auto simp: inject_def dict_of_set_item update_conv' split: result.splits)

lemma inject_key:
  assumes "succeeded w r"
  shows "\<exists>addr. r = Returned addr \<and> map_of (dict_of (inject a ctx r w) ctx) (a @ ''_result'') = Some (PRef addr)"
proof (cases r)
  case (Returned addr)
  then show ?thesis
    using assms by (simp add: inject_def succeeded_Returned dict_of_set_item update_conv')
next
  case (Failure msg t)
  then show ?thesis using assms by simp
qed

lemma run_sequential_key_kept:
  assumes "run_sequential str_of tids ctx results w now s = (Inr results1, w1, now1, s1)"
    and "key_kept str_of tids ctx (a @ ''_result'') w now s" and "a \<notin> set tids"
  shows "map_of (dict_of w1 ctx) (a @ ''_result'') = map_of (dict_of w ctx) (a @ ''_result'')"
  using assms
proof (induction tids arbitrary: results w now s)
  case Nil
  then show ?case by simp
next
  case (Cons x tids)
  obtain r w' now' s' where ex: "execute_tool str_of x ctx w now s = (r, w', now', s')"
    by (metis prod_cases4)
  show ?case
  proof (cases r)
    case (Inl exc)
    then show ?thesis using ex Cons.prems by simp
  next
    case (Inr x2)
    have run: "run_sequential str_of tids ctx (recorded x x2 w' results) (inject x ctx x2 w') now' s'
        = (Inr results1, w1, now1, s1)"
      using run_sequential_step [OF ex [unfolded Inr], of tids results] Cons.prems(1) by simp
    have kept: "map_of (dict_of w' ctx) (a @ ''_result'') = map_of (dict_of w ctx) (a @ ''_result'')"
      and rest: "key_kept str_of tids ctx (a @ ''_result'') (inject x ctx x2 w') now' s'"
      using Cons.prems(2) ex Inr by simp_all
    have ne: "x \<noteq> a" and notin: "a \<notin> set tids"
      using Cons.prems(3) by auto
    have "map_of (dict_of w1 ctx) (a @ ''_result'')
        = map_of (dict_of (inject x ctx x2 w') ctx) (a @ ''_result'')"
      by (rule Cons.IH [OF run rest notin])
    also have "\<dots> = map_of (dict_of w' ctx) (a @ ''_result'')"
      by (rule inject_other_key [OF ne])
    finally show ?thesis using kept by simp
  qed
qed

text \<open>
  Claim C4, as the code has it. Let a batch run in sequential mode on the ids
  \<open>pre @ a # mid @ post\<close> and return; let \<open>a\<close> be executed, after the ids of \<open>pre\<close>, with
  the result \<open>r\<close>, and let \<open>w4\<close> be the heap once \<open>a\<close> and the ids of \<open>mid\<close> are done. Then
  the tools of \<open>post\<close> are executed from \<open>w4\<close> on, whatever the earlier results were; the
  batch lists every id in the given order and records a result for each, the one of \<open>a\<close>
  being \<open>r\<close> unless \<open>a\<close> is executed again. If \<^verbatim>\<open>success\<close> is truthy in \<open>r\<close>, the context
  with which the next tool is executed holds \<open>r\<close> under \<^verbatim>\<open><a>_result\<close>; the context
  still holds it after the tools of \<open>mid\<close> when \<open>a\<close> is not among them and each of their
  executions hands the context back with that key as it found it. If \<^verbatim>\<open>success\<close> is not
  truthy in \<open>r\<close>, the aggregate flag of the batch is false.
\<close>

theorem sequential_chaining:
  assumes batch: "execute_multiple_tools str_of schedule (pre @ a # mid @ post) ctx True w now s
                    = (Inr res, w5, now5, s5)"
    and pre: "run_sequential str_of pre ctx empty_batch w now s = (Inr res1, w1, now1, s1)"
    and a: "execute_tool str_of a ctx w1 now1 s1 = (Inr r, w2, now2, s2)"
    and mid: "run_sequential str_of (a # mid) ctx res1 w1 now1 s1 = (Inr res4, w4, now4, s4)"
  shows "tools_executed res = pre @ a # mid @ post
    \<and> list_all (\<lambda>tid. map_of (tool_results res) tid \<noteq> None) (pre @ a # mid @ post)
    \<and> (a \<notin> set mid \<and> a \<notin> set post \<longrightarrow> map_of (tool_results res) a = Some (Inr r))
    \<and> (\<exists>res'. run_sequential str_of post ctx res4 w4 now4 s4 = (Inr res', w5, now5, s5)
          \<and> res = res'\<lparr> total_time := now5 - now \<rparr>)
    \<and> run_sequential str_of mid ctx (recorded a r w2 res1) (inject a ctx r w2) now2 s2
         = (Inr res4, w4, now4, s4)
    \<and> (succeeded w2 r \<longrightarrow>
          (\<exists>addr. r = Returned addr
             \<and> map_of (dict_of (inject a ctx r w2) ctx) (a @ ''_result'') = Some (PRef addr)))
    \<and> (succeeded w2 r \<and> a \<notin> set mid
          \<and> key_kept str_of mid ctx (a @ ''_result'') (inject a ctx r w2) now2 s2 \<longrightarrow>
          (\<exists>addr. r = Returned addr \<and> map_of (dict_of w4 ctx) (a @ ''_result'') = Some (PRef addr)))
    \<and> (\<not> succeeded w2 r \<longrightarrow> \<not> success res)"
proof -
  let ?k = "a @ ''_result''"
  let ?all = "pre @ a # mid @ post"
  have mid': "run_sequential str_of mid ctx (recorded a r w2 res1) (inject a ctx r w2) now2 s2
      = (Inr res4, w4, now4, s4)"
    using run_sequential_step [OF a, of mid res1] mid by simp
  have whole: "run_sequential str_of ?all ctx empty_batch w now s
      = run_sequential str_of post ctx res4 w4 now4 s4"
  proof -
    have "run_sequential str_of (pre @ (a # mid) @ post) ctx empty_batch w now s
        = run_sequential str_of ((a # mid) @ post) ctx res1 w1 now1 s1"
      using pre by (simp only: run_sequential_append [of str_of pre] prod.case sum.case)
    also have "\<dots> = run_sequential str_of post ctx res4 w4 now4 s4"
      using mid by (simp only: run_sequential_append [of str_of "a # mid"] prod.case sum.case)
    finally show ?thesis by simp
  qed
  obtain x c5 n5 t5 where rest: "run_sequential str_of post ctx res4 w4 now4 s4 = (x, c5, n5, t5)"
    by (metis prod_cases4)
  have full: "run_sequential str_of ?all ctx empty_batch w now s = (x, c5, n5, t5)"
    using whole rest by simp
  obtain res' where x: "x = Inr res'"
    using batch full by (cases x) (simp_all add: execute_multiple_tools_def Let_def)
  have out: "res = res'\<lparr> total_time := now5 - now \<rparr>" "w5 = c5" "now5 = n5" "s5 = t5"
    using batch full x by (auto simp: execute_multiple_tools_def Let_def)
  note rest' = rest [unfolded x]
  note full' = full [unfolded x]
  have c1: "tools_executed res = ?all"
    using run_sequential_recorded(1) [OF full'] out(1) by (simp add: empty_batch_def)
  have c2: "list_all (\<lambda>tid. map_of (tool_results res) tid \<noteq> None) ?all"
    using run_sequential_recorded(3) [OF full'] out(1) by (auto simp: list_all_iff)
  have c3: "map_of (tool_results res) a = Some (Inr r)" if "a \<notin> set mid" and "a \<notin> set post"
  proof -
    have "map_of (tool_results (recorded a r w2 res1)) a = Some (Inr r)"
      by (simp add: recorded_def update_conv')
    then have "map_of (tool_results res4) a = Some (Inr r)"
      using run_sequential_recorded(2) [OF mid' that(1)] by simp
    then have "map_of (tool_results res') a = Some (Inr r)"
      using run_sequential_recorded(2) [OF rest' that(2)] by simp
    then show ?thesis using out(1) by simp
  qed
  have c4: "\<exists>res'. run_sequential str_of post ctx res4 w4 now4 s4 = (Inr res', w5, now5, s5)
          \<and> res = res'\<lparr> total_time := now5 - now \<rparr>"
    using rest' out by simp
  have c5: "\<exists>addr. r = Returned addr \<and> map_of (dict_of (inject a ctx r w2) ctx) ?k = Some (PRef addr)"
    if "succeeded w2 r"
    using that by (rule inject_key)
  have c6: "\<exists>addr. r = Returned addr \<and> map_of (dict_of w4 ctx) ?k = Some (PRef addr)"
    if t: "succeeded w2 r" and notin: "a \<notin> set mid"
      and kept: "key_kept str_of mid ctx ?k (inject a ctx r w2) now2 s2"
    using run_sequential_key_kept [OF mid' kept notin] inject_key [OF t, of a ctx] by simp
  have c7: "\<not> success res" if "\<not> succeeded w2 r"
  proof -
    have "\<not> success (recorded a r w2 res1)" using that by (simp add: recorded_def)
    then have "\<not> success res4" using run_sequential_recorded(4) [OF mid'] by simp
    then have "\<not> success res'" using run_sequential_recorded(4) [OF rest'] by simp
    then show ?thesis using out(1) by simp
  qed
  show ?thesis
    using c1 c2 c3 c4 mid' c5 c6 c7 by blast
qed

theorem sequential_chaining_witness:
  "(\<exists>res w5 now5 s5 w2 now2 s2 res4 w4 now4 s4.
      execute_multiple_tools str_stub [] ([] @ ''a'' # [''probe''] @ [''probe'']) 0 True start_world 1
          chain_manager = (Inr res, w5, now5, s5)
      \<and> run_sequential str_stub [] 0 empty_batch start_world 1 chain_manager
          = (Inr empty_batch, start_world, 1, chain_manager)
      \<and> execute_tool str_stub ''a'' 0 start_world 1 chain_manager = (Inr (Returned 1), w2, now2, s2)
      \<and> run_sequential str_stub [''a'', ''probe''] 0 empty_batch start_world 1 chain_manager
          = (Inr res4, w4, now4, s4)
      \<and> succeeded w2 (Returned 1) \<and> ''a'' \<notin> set [''probe'']
      \<and> key_kept str_stub [''probe''] 0 ''a_result'' (inject ''a'' 0 (Returned 1) w2) now2 s2
      \<and> tools_executed res = [''a'', ''probe'', ''probe'']
      \<and> map_of (dict_of w4 0) ''a_result'' = Some (PRef 1)
      \<and> map_of (dict_of w5 3) ''saw'' = Some (PRef 1))
   \<and> (\<exists>res w5 now5 s5 r w2 now2 s2 res4 w4 now4 s4.
      execute_multiple_tools str_stub [] ([] @ ''a'' # [] @ [''b'']) 0 True start_world 1 mixed_manager
          = (Inr res, w5, now5, s5)
      \<and> execute_tool str_stub ''a'' 0 start_world 1 mixed_manager = (Inr r, w2, now2, s2)
      \<and> run_sequential str_stub [''a''] 0 empty_batch start_world 1 mixed_manager
          = (Inr res4, w4, now4, s4)
      \<and> \<not> succeeded w2 r
      \<and> tools_executed res = [''a'', ''b'']
      \<and> map_of (tool_results res) ''a'' = Some (Inr (Failure ''boom'' ''a''))
      \<and> map_of (tool_results res) ''b'' = Some (Inr (Returned 1))
      \<and> \<not> success res)"
proof -
  \<comment> \<open>first instance: \<open>a\<close>, then \<open>probe\<close> twice\<close>
  obtain res w5 now5 s5 where batch:
    "execute_multiple_tools str_stub [] ([] @ ''a'' # [''probe''] @ [''probe'']) 0 True start_world 1
       chain_manager = (Inr res, w5, now5, s5)"
    and saw: "map_of (dict_of w5 3) ''saw'' = Some (PRef 1)"
    by (simp add: chain_manager_eval evaluation)
  have pre: "run_sequential str_stub [] 0 empty_batch start_world 1 chain_manager
      = (Inr empty_batch, start_world, 1, chain_manager)"
    by simp
  obtain w2 now2 s2 where a:
    "execute_tool str_stub ''a'' 0 start_world 1 chain_manager = (Inr (Returned 1), w2, now2, s2)"
    and ok: "succeeded w2 (Returned 1)"
    and kept: "key_kept str_stub [''probe''] 0 ''a_result'' (inject ''a'' 0 (Returned 1) w2) now2 s2"
    by (simp add: chain_manager_eval evaluation)
  obtain res4 w4 now4 s4 where mid:
    "run_sequential str_stub (''a'' # [''probe'']) 0 empty_batch start_world 1 chain_manager
       = (Inr res4, w4, now4, s4)"
    by (simp add: chain_manager_eval evaluation)
  note t1 = sequential_chaining [OF batch pre a mid]
  have notin: "''a'' \<notin> set [''probe'']" by simp
  have w1: "tools_executed res = [''a'', ''probe'', ''probe'']"
    using t1 by simp
  have w2: "map_of (dict_of w4 0) ''a_result'' = Some (PRef 1)"
    using t1 ok kept notin by auto
  have first: "\<exists>res w5 now5 s5 w2 now2 s2 res4 w4 now4 s4.
      execute_multiple_tools str_stub [] ([] @ ''a'' # [''probe''] @ [''probe'']) 0 True start_world 1
          chain_manager = (Inr res, w5, now5, s5)
      \<and> run_sequential str_stub [] 0 empty_batch start_world 1 chain_manager
          = (Inr empty_batch, start_world, 1, chain_manager)
      \<and> execute_tool str_stub ''a'' 0 start_world 1 chain_manager = (Inr (Returned 1), w2, now2, s2)
      \<and> run_sequential str_stub [''a'', ''probe''] 0 empty_batch start_world 1 chain_manager
          = (Inr res4, w4, now4, s4)
      \<and> succeeded w2 (Returned 1) \<and> ''a'' \<notin> set [''probe'']
      \<and> key_kept str_stub [''probe''] 0 ''a_result'' (inject ''a'' 0 (Returned 1) w2) now2 s2
      \<and> tools_executed res = [''a'', ''probe'', ''probe'']
      \<and> map_of (dict_of w4 0) ''a_result'' = Some (PRef 1)
      \<and> map_of (dict_of w5 3) ''saw'' = Some (PRef 1)"
    using batch pre a mid ok notin kept w1 w2 saw by blast
  \<comment> \<open>second instance: a tool that raises, then the stub\<close>
  obtain resb w5b now5b s5b where batch2:
    "execute_multiple_tools str_stub [] ([] @ ''a'' # [] @ [''b'']) 0 True start_world 1 mixed_manager
       = (Inr resb, w5b, now5b, s5b)"
    and v4: "map_of (tool_results resb) ''b'' = Some (Inr (Returned 1))"
    by (simp add: mixed_manager_eval evaluation)
  have pre2: "run_sequential str_stub [] 0 empty_batch start_world 1 mixed_manager
      = (Inr empty_batch, start_world, 1, mixed_manager)"
    by simp
  obtain w2b now2b s2b where a2:
    "execute_tool str_stub ''a'' 0 start_world 1 mixed_manager
       = (Inr (Failure ''boom'' ''a''), w2b, now2b, s2b)"
    by (simp add: mixed_manager_eval evaluation)
  obtain res4b w4b now4b s4b where mid2:
    "run_sequential str_stub (''a'' # []) 0 empty_batch start_world 1 mixed_manager
       = (Inr res4b, w4b, now4b, s4b)"
    by (simp add: mixed_manager_eval evaluation)
  note t2 = sequential_chaining [OF batch2 pre2 a2 mid2]
  have failed: "\<not> succeeded w2b (Failure ''boom'' ''a'')" by simp
  have v1: "tools_executed resb = [''a'', ''b'']"
    using t2 by simp
  have v2: "map_of (tool_results resb) ''a'' = Some (Inr (Failure ''boom'' ''a''))"
    using t2 by simp
  have v3: "\<not> success resb"
    using t2 failed by blast
  have second: "\<exists>res w5 now5 s5 r w2 now2 s2 res4 w4 now4 s4.
      execute_multiple_tools str_stub [] ([] @ ''a'' # [] @ [''b'']) 0 True start_world 1 mixed_manager
          = (Inr res, w5, now5, s5)
      \<and> execute_tool str_stub ''a'' 0 start_world 1 mixed_manager = (Inr r, w2, now2, s2)
      \<and> run_sequential str_stub [''a''] 0 empty_batch start_world 1 mixed_manager
          = (Inr res4, w4, now4, s4)
      \<and> \<not> succeeded w2 r
      \<and> tools_executed res = [''a'', ''b'']
      \<and> map_of (tool_results res) ''a'' = Some (Inr (Failure ''boom'' ''a''))
      \<and> map_of (tool_results res) ''b'' = Some (Inr (Returned 1))
      \<and> \<not> success res"
    using batch2 a2 mid2 failed v1 v2 v3 v4 by blast
  show ?thesis using first second by blast
qed

text \<open>
  The key of claim C4 need not be visible to every later tool: the context is one object
  shared with the tools. In the batch \<^verbatim>\<open>a\<close>, \<^verbatim>\<open>eraser\<close>, \<^verbatim>\<open>probe\<close> all three succeed,
  \<^verbatim>\<open>eraser\<close> clears the context, and \<^verbatim>\<open>probe\<close> finds nothing under \<^verbatim>\<open>a_result\<close>. Nor is
  every remaining tool executed in every batch: a tool that ends with
  \<^verbatim>\<open>asyncio.CancelledError\<close> ends the batch with that exception, and no result is
  returned for any id.
\<close>

theorem erased_result_not_visible:
  "(case execute_multiple_tools str_stub [] [''a'', ''eraser'', ''probe''] 0 True start_world 1 chain_manager of
      (r, w5, now5, s5) \<Rightarrow>
        (\<exists>res. r = Inr res
          \<and> tools_executed res = [''a'', ''eraser'', ''probe'']
          \<and> map_of (tool_results res) ''a'' = Some (Inr (Returned 1))
          \<and> map_of (tool_results res) ''probe'' = Some (Inr (Returned 3))
          \<and> dict_of w5 1 = [(''success'', PBool True), (''value'', PInt 42)]
          \<and> dict_of w5 3 = [(''success'', PBool True), (''saw'', PNone)]
          \<and> success res))
   \<and> fst (execute_multiple_tools str_stub [] [''c'', ''c''] 0 True start_world 1 cancelled_manager)
       = Inl CancelledError"
  by (simp add: chain_manager_eval cancelled_manager_eval evaluation)

section \<open>A handle belongs to a pending task\<close>

lemma in_set_update: "p \<in> set (AList.update k v al) \<Longrightarrow> p = (k, v) \<or> p \<in> set al"
  by (induction al) (auto split: if_splits)

lemma in_set_delete: "p \<in> set (AList.delete k al) \<longleftrightarrow> p \<in> set al \<and> fst p \<noteq> k"
  by (induction al) auto

lemma pending_put_entry: "handles_pending s \<Longrightarrow> handles_pending (put_entry tid e s)"
  by (auto simp: handles_pending_def put_entry_def list_all_iff update_conv')

lemma pending_total_executions:
  "handles_pending s \<Longrightarrow> handles_pending (s\<lparr> total_executions := k \<rparr>)"
  by (simp add: handles_pending_def)

lemma pending_drop_handle:
  "handles_pending s \<Longrightarrow>
     handles_pending (s\<lparr> initialization_tasks := AList.delete tid (initialization_tasks s) \<rparr>)"
  by (auto simp: handles_pending_def list_all_iff in_set_delete)

lemma pending_clear: "handles_pending s \<Longrightarrow> handles_pending (s\<lparr> initialization_tasks := [] \<rparr>)"
  by (simp add: handles_pending_def)

text \<open>A task may leave the live tasks together with the handles of its tool id.\<close>

lemma pending_drop_task:
  assumes "handles_pending s" and "\<And>t. map_of (live_tasks s) n = Some t \<Longrightarrow> t = tid"
    and "map_of (initialization_tasks s) tid = None"
  shows "handles_pending (s\<lparr> live_tasks := AList.delete n (live_tasks s) \<rparr>)"
proof -
  have other: "n' \<noteq> n" if "(tid', n') \<in> set (initialization_tasks s)" for tid' n'
  proof
    assume "n' = n"
    then have "map_of (live_tasks s) n = Some tid'"
      using that assms(1) by (auto simp: handles_pending_def list_all_iff)
    then have "tid' = tid" by (rule assms(2))
    then have "tid \<in> fst ` set (initialization_tasks s)"
      using that by force
    then show False
      using assms(3) by (simp add: map_of_eq_None_iff)
  qed
  show ?thesis
    using assms(1) other
    by (auto simp: handles_pending_def list_all_iff delete_conv' in_set_delete)
qed

lemma map_of_delete_None: "map_of (AList.delete k al) k = None"
  by (simp add: delete_conv')

lemma pending_initialize_tool: "handles_pending s \<Longrightarrow> handles_pending (snd (initialize_tool now tid s))"
proof -
  assume inv: "handles_pending s"
  show ?thesis
  proof (cases "map_of (tool_map s) tid")
    case None
    then show ?thesis using pending_drop_handle [OF inv, of tid] by (simp add: initialize_tool_def)
  next
    case (Some e)
    obtain exc e1 where i: "initialize_entry now e = (exc, e1)"
      by (cases "initialize_entry now e")
    show ?thesis
      using pending_drop_handle [OF pending_put_entry [OF inv, of tid e1], of tid] Some i
      by (simp add: initialize_tool_def)
  qed
qed

lemma pending_finish_task:
  assumes "handles_pending s" and "\<And>t. map_of (live_tasks s) n = Some t \<Longrightarrow> t = tid"
  shows "handles_pending (snd (finish_task now n tid s))"
proof -
  obtain exc s1 where i: "initialize_tool now tid s = (exc, s1)"
    by (cases "initialize_tool now tid s")
  have inv1: "handles_pending s1"
    using pending_initialize_tool [OF assms(1), of now tid] i by simp
  have live1: "live_tasks s1 = live_tasks s"
    and handles1: "initialization_tasks s1 = AList.delete tid (initialization_tasks s)"
    using initialize_tool_tasks [of now tid s] i by simp_all
  have "handles_pending (s1\<lparr> live_tasks := AList.delete n (live_tasks s1) \<rparr>)"
    using inv1
  proof (rule pending_drop_task)
    show "t = tid" if "map_of (live_tasks s1) n = Some t" for t
      using that assms(2) live1 by simp
    show "map_of (initialization_tasks s1) tid = None"
      by (simp add: handles1 map_of_delete_None)
  qed
  then show ?thesis using i by (simp add: finish_task_def)
qed

lemma pending_initialization_task:
  "handles_pending s \<Longrightarrow> handles_pending (initialization_task now n s)"
  by (auto simp: initialization_task_def intro: pending_finish_task split: option.splits)

lemma pending_timed_out:
  assumes "handles_pending s" and "\<And>t. map_of (live_tasks s) n = Some t \<Longrightarrow> t = tid"
  shows "handles_pending (timed_out tid n s)"
proof -
  let ?s1 = "s\<lparr> initialization_tasks := AList.delete tid (initialization_tasks s) \<rparr>"
  have "handles_pending (?s1\<lparr> live_tasks := AList.delete n (live_tasks ?s1) \<rparr>)"
    using pending_drop_handle [OF assms(1), of tid]
  proof (rule pending_drop_task)
    show "t = tid" if "map_of (live_tasks ?s1) n = Some t" for t
      using that assms(2) by simp
    show "map_of (initialization_tasks ?s1) tid = None"
      by (simp add: map_of_delete_None)
  qed
  moreover have "timed_out tid n s = ?s1\<lparr> live_tasks := AList.delete n (live_tasks ?s1) \<rparr>"
    by (simp add: timed_out_def cancel_task_def)
  ultimately show ?thesis by simp
qed

lemma handle_task:
  assumes "handles_pending s" and "(tid, n) \<in> set (initialization_tasks s)"
  shows "map_of (live_tasks s) n = Some tid"
  using assms by (auto simp: handles_pending_def list_all_iff)

text \<open>The tasks of a list of handles end or are cancelled one after the other; the
  tasks still to come are live for their ids or have ended already.\<close>

lemma pending_finish_tasks:
  assumes "handles_pending s"
    and "list_all (\<lambda>(tid, n). \<forall>t. map_of (live_tasks s) n = Some t \<longrightarrow> t = tid) hs"
  shows "handles_pending (snd (finish_tasks now hs s))"
  using assms
proof (induction hs arbitrary: s)
  case Nil
  then show ?case by simp
next
  case (Cons h hs)
  obtain tid n where h: "h = (tid, n)" by (cases h)
  obtain exc s1 where f: "finish_task now n tid s = (exc, s1)"
    by (cases "finish_task now n tid s")
  have inv1: "handles_pending s1"
    using pending_finish_task [OF Cons.prems(1), of n tid now] Cons.prems(2) h f by simp
  have live1: "live_tasks s1 = AList.delete n (live_tasks s)"
    using finish_task_tasks(2) [of now n tid s] f by simp
  have rest: "list_all (\<lambda>(tid, n). \<forall>t. map_of (live_tasks s1) n = Some t \<longrightarrow> t = tid) hs"
    using Cons.prems(2) by (auto simp: live1 delete_conv' list_all_iff split: if_splits)
  show ?case
    using Cons.IH [OF inv1 rest] inv1 h f by (cases exc) simp_all
qed

lemma pending_fold_timed_out:
  assumes "handles_pending s"
    and "list_all (\<lambda>(tid, n). \<forall>t. map_of (live_tasks s) n = Some t \<longrightarrow> t = tid) hs"
  shows "handles_pending (fold (\<lambda>(tid, n) s2. timed_out tid n s2) hs s)"
  using assms
proof (induction hs arbitrary: s)
  case Nil
  then show ?case by simp
next
  case (Cons h hs)
  obtain tid n where h: "h = (tid, n)" by (cases h)
  have inv1: "handles_pending (timed_out tid n s)"
    using pending_timed_out [OF Cons.prems(1), of n tid] Cons.prems(2) h by simp
  have rest: "list_all (\<lambda>(tid', n'). \<forall>t. map_of (live_tasks (timed_out tid n s)) n' = Some t \<longrightarrow> t = tid') hs"
    using Cons.prems(2) by (auto simp: timed_out_tasks delete_conv' list_all_iff split: if_splits)
  show ?case
    using Cons.IH [OF inv1 rest] h by simp
qed

lemma pending_wait_for_tool:
  "handles_pending s \<Longrightarrow> handles_pending (snd (wait_for_tool_initialization in_time now tid s))"
proof -
  assume inv: "handles_pending s"
  show ?thesis
  proof (cases "map_of (initialization_tasks s) tid")
    case None
    then show ?thesis using inv by (simp add: wait_for_tool_initialization_def split: option.splits)
  next
    case (Some n)
    then have "(tid, n) \<in> set (initialization_tasks s)" by (rule map_of_SomeD)
    then have live: "map_of (live_tasks s) n = Some tid" by (rule handle_task [OF inv])
    show ?thesis
    proof (cases in_time)
      case True
      then show ?thesis
        using Some pending_finish_task [OF inv, of n tid now] live
        by (cases "finish_task now n tid s") (auto simp: wait_for_tool_initialization_def split: option.splits)
    next
      case False
      then show ?thesis
        using Some pending_timed_out [OF inv, of n tid] live
        by (simp add: wait_for_tool_initialization_def)
    qed
  qed
qed

lemma pending_wait_for_all:
  "handles_pending s \<Longrightarrow> handles_pending (snd (wait_for_all_initializations in_time now s))"
proof -
  assume inv: "handles_pending s"
  show ?thesis
  proof (cases "initialization_tasks s = []")
    case True
    then show ?thesis using inv by (simp add: wait_for_all_initializations_def)
  next
    case False
    let ?A = "filter (\<lambda>(tid, n). in_time tid) (initialization_tasks s)"
    let ?B = "filter (\<lambda>(tid, n). \<not> in_time tid) (initialization_tasks s)"
    obtain exc s1 where f: "finish_tasks now ?A s = (exc, s1)"
      by (cases "finish_tasks now ?A s")
    have "list_all (\<lambda>(tid, n). \<forall>t. map_of (live_tasks s) n = Some t \<longrightarrow> t = tid) ?A"
      using handle_task [OF inv] by (auto simp: list_all_iff)
    then have inv1: "handles_pending s1"
      using pending_finish_tasks [OF inv, of ?A now] f by simp
    show ?thesis
    proof (cases exc)
      case (Some e)
      then show ?thesis using False f inv1 by (simp add: wait_for_all_initializations_def)
    next
      case None
      have live1: "live_tasks s1 = fold (\<lambda>h. AList.delete (snd h)) ?A (live_tasks s)"
        using finish_tasks_tasks [OF f [unfolded None]] by simp
      have "list_all (\<lambda>(tid, n). \<forall>t. map_of (live_tasks s1) n = Some t \<longrightarrow> t = tid) ?B"
        using handle_task [OF inv] by (auto simp: list_all_iff live1 map_of_fold_delete split: if_splits)
      then have "handles_pending (fold (\<lambda>(tid, n) s2. timed_out tid n s2) ?B s1)"
        by (rule pending_fold_timed_out [OF inv1])
      then show ?thesis
        using False f None pending_clear [OF inv1] by (simp add: wait_for_all_initializations_def)
    qed
  qed
qed

lemma pending_check_ready:
  "handles_pending s \<Longrightarrow> check_ready tid entry now s = (c, s1) \<Longrightarrow> handles_pending s1"
  by (auto simp: check_ready_def pending_put_entry split: if_splits)

lemma pending_begin_call:
  "handles_pending s \<Longrightarrow> begin_call tid now s = (b, s1) \<Longrightarrow> handles_pending s1"
  by (auto simp: begin_call_def split: option.splits prod.splits if_splits
      dest: pending_check_ready)

lemma pending_finish_init:
  assumes "handles_pending s" and "finish_init tid now s = (r, s2)"
  shows "handles_pending s2"
proof -
  obtain exc s1 where i: "initialize_tool now tid s = (exc, s1)"
    by (cases "initialize_tool now tid s")
  have inv1: "handles_pending s1"
    using pending_initialize_tool [OF assms(1), of now tid] i by simp
  show ?thesis
    using assms(2) i inv1
    by (auto simp: finish_init_def split: option.splits prod.splits dest: pending_check_ready)
qed

lemma pending_finish_call:
  "handles_pending s \<Longrightarrow> finish_call str_of tid ctx start_time w now s = (r, w1, now1, s1) \<Longrightarrow>
     handles_pending s1"
  by (auto simp: finish_call_def Let_def pending_put_entry pending_total_executions
      split: option.splits exec_outcome.splits prod.splits)

lemma pending_execute_tool:
  assumes "handles_pending s" and "execute_tool str_of tid ctx w now s = (r, w1, now1, s1)"
  shows "handles_pending s1"
proof -
  obtain b s' where bc: "begin_call tid now s = (b, s')"
    by (cases "begin_call tid now s")
  have inv1: "handles_pending s'"
    using pending_begin_call [OF assms(1) bc] .
  obtain r2 s2 where fi: "finish_init tid now s' = (r2, s2)"
    by (cases "finish_init tid now s'")
  have inv2: "handles_pending s2"
    using pending_finish_init [OF inv1 fi] .
  show ?thesis
    using assms(2) bc fi inv1 inv2
    by (auto simp: execute_tool_def split: begun.splits ready_check.splits sum.splits
        dest: pending_finish_call)
qed

lemma pending_advance: "handles_pending (registry g) \<Longrightarrow> handles_pending (registry (advance str_of i g))"
  by (auto simp: advance_def Let_def
      split: task_state.splits prod.splits begun.splits sum.splits
      dest: pending_begin_call pending_finish_init pending_finish_call)

lemma pending_apply_event:
  "handles_pending (registry g) \<Longrightarrow> handles_pending (registry (apply_event str_of ev g))"
  by (cases ev) (simp_all add: pending_advance pending_initialization_task)

lemma pending_fold_apply_event:
  "handles_pending (registry g) \<Longrightarrow> handles_pending (registry (fold (apply_event str_of) evs g))"
  by (induction evs arbitrary: g) (simp_all add: pending_apply_event)

lemma pending_run_parallel:
  "handles_pending s \<Longrightarrow> handles_pending (registry (run_parallel str_of schedule tids ctx w now s))"
  using pending_fold_apply_event [of _ str_of]
  by (simp add: run_parallel_def split: prod.splits)

lemma pending_run_sequential:
  "handles_pending s \<Longrightarrow> run_sequential str_of tids ctx results w now s = (r, w1, now1, s1) \<Longrightarrow>
     handles_pending s1"
proof (induction tids arbitrary: results w now s)
  case Nil
  then show ?case by simp
next
  case (Cons tid tids)
  obtain x w' now' s' where ex: "execute_tool str_of tid ctx w now s = (x, w', now', s')"
    by (metis prod_cases4)
  have inv1: "handles_pending s'"
    using pending_execute_tool [OF Cons.prems(1) ex] .
  show ?case
  proof (cases x)
    case (Inl exc)
    then show ?thesis using ex inv1 Cons.prems(2) by simp
  next
    case (Inr y)
    show ?thesis
      using Cons.prems(2) unfolding run_sequential_step [OF ex [unfolded Inr]]
      by (rule Cons.IH [OF inv1])
  qed
qed

lemma pending_execute_multiple_tools:
  assumes "handles_pending s"
    and "execute_multiple_tools str_of schedule tids ctx sequential w now s = (r, w1, now1, s1)"
  shows "handles_pending s1"
proof (cases sequential)
  case True
  obtain x w' now' s' where q: "run_sequential str_of tids ctx empty_batch w now s = (x, w', now', s')"
    by (metis prod_cases4)
  have "handles_pending s'" using pending_run_sequential [OF assms(1) q] .
  then show ?thesis
    using assms(2) True q by (cases x) (auto simp: execute_multiple_tools_def Let_def)
next
  case False
  then show ?thesis
    using assms(2) pending_run_parallel [OF assms(1), of str_of schedule tids ctx w now]
    by (auto simp: execute_multiple_tools_def Let_def split: option.splits)
qed

lemma pending_add_tool: "handles_pending s \<Longrightarrow> handles_pending (snd (add_tool now tid inst args s))"
proof -
  assume inv: "handles_pending s"
  have fresh: "map_of (live_tasks s) (spawned_tasks s) = None"
  proof (cases "map_of (live_tasks s) (spawned_tasks s)")
    case None
    then show ?thesis .
  next
    case (Some t)
    then have "(spawned_tasks s, t) \<in> set (live_tasks s)" by (rule map_of_SomeD)
    then show ?thesis using inv by (auto simp: handles_pending_def list_all_iff)
  qed
  show ?thesis
    using inv fresh
    by (auto simp: add_tool_def new_entry_def Let_def handles_pending_def list_all_iff
        update_conv' map_add_def dest!: in_set_update split: option.splits)
qed

lemma pending_remove_tool: "handles_pending s \<Longrightarrow> handles_pending (snd (remove_tool tid s))"
proof -
  assume inv: "handles_pending s"
  show ?thesis
  proof (cases "map_of (tool_map s) tid = None")
    case True
    then show ?thesis using inv by (simp add: remove_tool_def)
  next
    case False
    show ?thesis
    proof (cases "map_of (initialization_tasks s) tid")
      case None
      then have "tid \<notin> fst ` set (initialization_tasks s)"
        by (simp add: map_of_eq_None_iff)
      then have "handles_pending (s\<lparr> tool_map := AList.delete tid (tool_map s),
          total_removed := total_removed s + 1 \<rparr>)"
        using inv by (force simp: handles_pending_def list_all_iff delete_conv')
      then show ?thesis using False None by (auto simp: remove_tool_def)
    next
      case (Some n)
      then have "(tid, n) \<in> set (initialization_tasks s)" by (rule map_of_SomeD)
      then have live: "map_of (live_tasks s) n = Some tid" by (rule handle_task [OF inv])
      have inv1: "handles_pending (timed_out tid n s)"
        using pending_timed_out [OF inv, of n tid] live by simp
      have "map_of (initialization_tasks (timed_out tid n s)) tid = None"
        by (simp add: timed_out_tasks map_of_delete_None)
      then have "tid \<notin> fst ` set (initialization_tasks (timed_out tid n s))"
        by (simp add: map_of_eq_None_iff)
      then have "handles_pending ((timed_out tid n s)\<lparr> tool_map := AList.delete tid (tool_map (timed_out tid n s)),
          total_removed := total_removed (timed_out tid n s) + 1 \<rparr>)"
        using inv1 by (force simp: handles_pending_def list_all_iff delete_conv')
      then show ?thesis
        using False Some by (auto simp: remove_tool_def timed_out_def Let_def)
    qed
  qed
qed

lemma remove_tool_keys:
  "map fst (tool_map (snd (remove_tool tid s))) = removeAll tid (map fst (tool_map s))"
proof (cases "map_of (tool_map s) tid = None")
  case True
  then have "tid \<notin> set (map fst (tool_map s))"
    by (simp add: map_of_eq_None_iff)
  then show ?thesis using True by (simp add: remove_tool_absent)
next
  case False
  then show ?thesis by (rule remove_tool_present(2))
qed

lemma fold_removeAll_all: "set ys \<subseteq> set xs \<Longrightarrow> fold removeAll xs ys = []"
proof (induction xs arbitrary: ys)
  case Nil
  then show ?case by simp
next
  case (Cons x xs)
  have "set (removeAll x ys) \<subseteq> set xs" using Cons.prems by auto
  then show ?case using Cons.IH by simp
qed

lemma fold_remove_tool_keys:
  "map fst (tool_map (fold (\<lambda>tid s1. snd (remove_tool tid s1)) tids s))
     = fold removeAll tids (map fst (tool_map s))"
  by (induction tids arbitrary: s) (simp_all add: remove_tool_keys)

lemma tool_map_fold_cancel_task [simp]: "tool_map (fold cancel_task ns s) = tool_map s"
  by (induction ns arbitrary: s) (simp_all add: cancel_task_def)

lemma cleanup_empties: "tool_map (cleanup s) = []"
proof -
  have "map fst (tool_map (cleanup s)) = []"
    unfolding cleanup_def fold_remove_tool_keys by (simp add: fold_removeAll_all)
  then show ?thesis by simp
qed

text \<open>While \<^verbatim>\<open>cleanup\<close> runs, cancelled tasks still have handles; the handles are for ids
  of the map throughout, and at the end the map is empty.\<close>

lemma cancel_task_handles_in_map:
  assumes "list_all (\<lambda>(n, tid). n < spawned_tasks s) (live_tasks s)
      \<and> list_all (\<lambda>(tid, n). map_of (tool_map s) tid \<noteq> None) (initialization_tasks s)"
  shows "list_all (\<lambda>(n, tid). n < spawned_tasks (cancel_task k s)) (live_tasks (cancel_task k s))
      \<and> list_all (\<lambda>(tid, n). map_of (tool_map (cancel_task k s)) tid \<noteq> None)
          (initialization_tasks (cancel_task k s))"
  using assms by (auto simp: cancel_task_def list_all_iff in_set_delete)

lemma remove_tool_handles_in_map:
  assumes "list_all (\<lambda>(n, tid). n < spawned_tasks s) (live_tasks s)
      \<and> list_all (\<lambda>(tid, n). map_of (tool_map s) tid \<noteq> None) (initialization_tasks s)"
  shows "list_all (\<lambda>(n, tid). n < spawned_tasks (snd (remove_tool k s))) (live_tasks (snd (remove_tool k s)))
      \<and> list_all (\<lambda>(tid, n). map_of (tool_map (snd (remove_tool k s))) tid \<noteq> None)
          (initialization_tasks (snd (remove_tool k s)))"
proof (cases "map_of (initialization_tasks s) k")
  case None
  then have "k \<notin> fst ` set (initialization_tasks s)"
    by (simp add: map_of_eq_None_iff)
  then show ?thesis
    using assms None
    by (force simp: remove_tool_def Let_def list_all_iff delete_conv')
next
  case (Some n)
  then show ?thesis
    using assms
    by (auto simp: remove_tool_def cancel_task_def Let_def list_all_iff in_set_delete delete_conv')
qed

lemma pending_cleanup: "handles_pending s \<Longrightarrow> handles_pending (cleanup s)"
proof -
  assume inv: "handles_pending s"
  have start: "list_all (\<lambda>(n, tid). n < spawned_tasks s) (live_tasks s)
      \<and> list_all (\<lambda>(tid, n). map_of (tool_map s) tid \<noteq> None) (initialization_tasks s)"
    using inv by (simp add: handles_pending_def)
  have cancelled: "list_all (\<lambda>(n, tid). n < spawned_tasks (fold cancel_task ns s1))
        (live_tasks (fold cancel_task ns s1))
      \<and> list_all (\<lambda>(tid, n). map_of (tool_map (fold cancel_task ns s1)) tid \<noteq> None)
          (initialization_tasks (fold cancel_task ns s1))"
    if "list_all (\<lambda>(n, tid). n < spawned_tasks s1) (live_tasks s1)
      \<and> list_all (\<lambda>(tid, n). map_of (tool_map s1) tid \<noteq> None) (initialization_tasks s1)"
    for ns s1
    using that
  proof (induction ns arbitrary: s1)
    case Nil
    then show ?case by simp
  next
    case (Cons k ns)
    show ?case
      using Cons.IH [OF cancel_task_handles_in_map [OF Cons.prems, of k]] by simp
  qed
  have removed: "list_all (\<lambda>(n, tid). n < spawned_tasks (fold (\<lambda>tid s2. snd (remove_tool tid s2)) tids s1))
        (live_tasks (fold (\<lambda>tid s2. snd (remove_tool tid s2)) tids s1))
      \<and> list_all (\<lambda>(tid, n). map_of (tool_map (fold (\<lambda>tid s2. snd (remove_tool tid s2)) tids s1)) tid \<noteq> None)
          (initialization_tasks (fold (\<lambda>tid s2. snd (remove_tool tid s2)) tids s1))"
    if "list_all (\<lambda>(n, tid). n < spawned_tasks s1) (live_tasks s1)
      \<and> list_all (\<lambda>(tid, n). map_of (tool_map s1) tid \<noteq> None) (initialization_tasks s1)"
    for tids s1
    using that
  proof (induction tids arbitrary: s1)
    case Nil
    then show ?case by simp
  next
    case (Cons k tids)
    show ?case
      using Cons.IH [OF remove_tool_handles_in_map [OF Cons.prems, of k]] by simp
  qed
  have fin: "list_all (\<lambda>(n, tid). n < spawned_tasks (cleanup s)) (live_tasks (cleanup s))
      \<and> list_all (\<lambda>(tid, n). map_of (tool_map (cleanup s)) tid \<noteq> None) (initialization_tasks (cleanup s))"
    unfolding cleanup_def by (rule removed [OF cancelled [OF start]])
  then have "initialization_tasks (cleanup s) = []"
    by (cases "initialization_tasks (cleanup s)") (auto simp: cleanup_empties)
  then show ?thesis using fin by (simp add: handles_pending_def)
qed

lemma pending_apply_call:
  "handles_pending (snd ws) \<Longrightarrow> handles_pending (snd (apply_call str_of c ws))"
proof -
  assume inv': "handles_pending (snd ws)"
  obtain w s where ws: "ws = (w, s)" by (cases ws)
  have inv: "handles_pending s" using inv' ws by simp
  show ?thesis
  proof (cases c)
    case (AddTool now tid inst args)
    then show ?thesis using ws inv by (simp add: pending_add_tool)
  next
    case (RemoveTool tid)
    then show ?thesis using ws inv by (simp add: pending_remove_tool)
  next
    case Cleanup
    then show ?thesis using ws inv by (simp add: pending_cleanup)
  next
    case (ExecuteTool tid ctx now)
    then show ?thesis
      using ws pending_execute_tool [OF inv, of str_of tid ctx w now]
      by (auto split: prod.splits)
  next
    case (ExecuteMultipleTools schedule tids ctx sequential now)
    then show ?thesis
      using ws pending_execute_multiple_tools [OF inv, of str_of schedule tids ctx sequential w now]
      by (auto split: prod.splits)
  next
    case (InitializationTask now n)
    then show ?thesis using ws inv by (simp add: pending_initialization_task)
  next
    case (WaitForTool in_time now tid)
    then show ?thesis using ws inv by (simp add: pending_wait_for_tool)
  next
    case (WaitForAll in_time now)
    then show ?thesis using ws inv by (simp add: pending_wait_for_all)
  next
    case (Elsewhere f)
    then show ?thesis using ws inv by simp
  qed
qed

text \<open>In every state that a fresh registry reaches, a handle belongs to a task that has
  neither ended nor been cancelled: the waits of the registry are waits for pending
  tasks.\<close>

lemma handles_pending_reachable:
  "handles_pending (snd (run_calls str_of calls (w0, new_manager sid cap t0)))"
proof -
  have "handles_pending (snd ws) \<Longrightarrow> handles_pending (snd (run_calls str_of cs ws))" for cs ws
    by (induction cs arbitrary: ws) (simp_all add: pending_apply_call)
  moreover have "handles_pending (new_manager sid cap t0)"
    by (simp add: handles_pending_def new_manager_def)
  ultimately show ?thesis by simp
qed


end
